theory Spec2Isabelle
  imports Main "HOL-Library.AList" "HOL-Library.Multiset"
begin

section \<open>Data model of build_oscars_crossword.js\<close>

text \<open>
  Coordinates and lengths are JavaScript numbers holding integers; they are modelled as
  \<open>int\<close>. A letter is one UTF-16 code unit of the answer string, modelled as \<open>char\<close>.
  The string key \<^verbatim>\<open>r + "," + c\<close> of the source's \<^verbatim>\<open>Map\<close> is modelled by the pair
  \<open>(r, c)\<close>, and the key \<^verbatim>\<open>r + "," + c + "," + dir\<close> by the triple \<open>(r, c, dir)\<close>: both
  encodings are injective on integers, and \<^verbatim>\<open>split(",").map(Number)\<close> inverts the
  first. A \<^verbatim>\<open>Map\<close> iterates in insertion order, and \<^verbatim>\<open>set\<close> on a present key keeps
  the key's position: the sparse grid is an association list updated by
  \<open>AList.update\<close>.
\<close>

datatype direction = Across | Down

record entry =
  answer :: string
  clue :: string
  rawAnswer :: "string option"

type_synonym coord = "int \<times> int"

type_synonym sparse_grid = "(coord \<times> char) list"

record placement =
  p_index :: nat
  p_row :: int
  p_col :: int
  p_dir :: direction
  p_answer :: string

record build_state =
  grid :: sparse_grid
  placed :: "placement list"
  minRow :: int
  maxRow :: int
  minCol :: int
  maxCol :: int

record cp_bounds =
  newMinRow :: int
  newMaxRow :: int
  newMinCol :: int
  newMaxCol :: int

record check =
  intersections :: int
  score :: int
  bounds :: cp_bounds

record candidate =
  cand_row :: int
  cand_col :: int
  cand_dir :: direction
  cand_score :: int

type_synonym start_key = "int \<times> int \<times> direction"

datatype error =
    NoEntries
  | TypeError
  | InvalidPlacement string
  | DuplicateStart start_key
  | MissingEntry start_key
  | UnusedEntries "string list"

record cell =
  cell_row :: int
  cell_col :: int
  solution :: "char option"
  isBlock :: bool
  cell_number :: "nat option"

record clue_rec =
  number :: nat
  clue_text :: string
  cells :: "coord list"

record puzzle =
  title :: string
  rows :: int
  cols :: int
  puzzle_grid :: "cell list list"
  clues_across :: "clue_rec list"
  clues_down :: "clue_rec list"

type_synonym start_map = "start_key \<rightharpoonup> nat \<times> entry option"

record scan_state =
  clueNumber :: nat
  numbered :: "coord \<rightharpoonup> nat"
  gridJson :: "cell list list"
  acrossClues :: "clue_rec list"
  downClues :: "clue_rec list"
  usedEntries :: "nat list"

section \<open>buildGrid\<close>

definition init_state :: build_state where
  "init_state = \<lparr>grid = [], placed = [], minRow = 0, maxRow = 0, minCol = 0, maxCol = 0\<rparr>"

definition has :: "build_state \<Rightarrow> int \<Rightarrow> int \<Rightarrow> bool" where
  "has st r c = (map_of (grid st) (r, c) \<noteq> None)"

definition get :: "build_state \<Rightarrow> int \<Rightarrow> int \<Rightarrow> char option" where
  "get st r c = map_of (grid st) (r, c)"

text \<open>Row and column of the \<open>i\<close>-th letter of a word starting at \<open>(row, col)\<close>.\<close>

definition cell_r :: "direction \<Rightarrow> int \<Rightarrow> int \<Rightarrow> int" where
  "cell_r dir row i = (if dir = Across then row else row + i)"

definition cell_c :: "direction \<Rightarrow> int \<Rightarrow> int \<Rightarrow> int" where
  "cell_c dir col i = (if dir = Across then col + i else col)"

definition widen :: "cp_bounds \<Rightarrow> int \<Rightarrow> int \<Rightarrow> cp_bounds" where
  "widen b r c =
     (let b1 = (if r < newMinRow b then b\<lparr>newMinRow := r\<rparr> else b);
          b2 = (if r > newMaxRow b1 then b1\<lparr>newMaxRow := r\<rparr> else b1);
          b3 = (if c < newMinCol b2 then b2\<lparr>newMinCol := c\<rparr> else b2)
      in (if c > newMaxCol b3 then b3\<lparr>newMaxCol := c\<rparr> else b3))"

text \<open>
  The \<^verbatim>\<open>for\<close> loop of \<^verbatim>\<open>canPlace\<close>, from index \<open>i\<close> over the remaining letters, with the
  locals \<^verbatim>\<open>intersections\<close> and the four \<^verbatim>\<open>new...\<close> bounds; \<open>None\<close> is \<^verbatim>\<open>return null\<close>.
\<close>

fun canPlace_loop ::
  "build_state \<Rightarrow> int \<Rightarrow> int \<Rightarrow> direction \<Rightarrow> int \<Rightarrow> string \<Rightarrow> int \<times> cp_bounds
     \<Rightarrow> (int \<times> cp_bounds) option" where
  "canPlace_loop st row col dir i [] acc = Some acc"
| "canPlace_loop st row col dir i (ch # rest) (n, b) =
     (let r = cell_r dir row i; c = cell_c dir col i
      in case get st r c of
           Some existing \<Rightarrow>
             if existing \<noteq> ch then None
             else canPlace_loop st row col dir (i + 1) rest (n + 1, widen b r c)
         | None \<Rightarrow>
             if dir = Across then
               (if has st (r - 1) c \<or> has st (r + 1) c then None
                else canPlace_loop st row col dir (i + 1) rest (n, widen b r c))
             else
               (if has st r (c - 1) \<or> has st r (c + 1) then None
                else canPlace_loop st row col dir (i + 1) rest (n, widen b r c)))"

text \<open>
  \<^verbatim>\<open>canPlace\<close> reads the grid and the bounds of the enclosing \<^verbatim>\<open>buildGrid\<close>; it is
  modelled in state-passing style and returns the state it leaves behind.
\<close>

definition canPlace ::
  "string \<Rightarrow> int \<Rightarrow> int \<Rightarrow> direction \<Rightarrow> build_state \<Rightarrow> check option \<times> build_state" where
  "canPlace ans row col dir st =
     (let len = int (length ans)
      in if (if dir = Across then has st row (col - 1) \<or> has st row (col + len)
             else has st (row - 1) col \<or> has st (row + len) col)
         then (None, st)
         else
           (case canPlace_loop st row col dir 0 ans
                   (0, \<lparr>newMinRow = minRow st, newMaxRow = maxRow st,
                        newMinCol = minCol st, newMaxCol = maxCol st\<rparr>) of
              None \<Rightarrow> (None, st)
            | Some (n, b) \<Rightarrow>
                if length (grid st) > 0 \<and> n = 0 then (None, st)
                else
                  (let height = newMaxRow b - newMinRow b + 1;
                       width = newMaxCol b - newMinCol b + 1;
                       area = height * width;
                       aspectPenalty = \<bar>width - height\<bar>;
                       sc = n * 1000 - area - aspectPenalty * 5
                   in (Some \<lparr>intersections = n, score = sc, bounds = b\<rparr>, st))))"

text \<open>The writing loop of \<^verbatim>\<open>placeWordAt\<close>.\<close>

definition write_cell :: "int \<Rightarrow> int \<Rightarrow> char \<Rightarrow> build_state \<Rightarrow> build_state" where
  "write_cell r c ch st =
     (let s0 = st\<lparr>grid := AList.update (r, c) ch (grid st)\<rparr>;
          s1 = (if r < minRow s0 then s0\<lparr>minRow := r\<rparr> else s0);
          s2 = (if r > maxRow s1 then s1\<lparr>maxRow := r\<rparr> else s1);
          s3 = (if c < minCol s2 then s2\<lparr>minCol := c\<rparr> else s2)
      in (if c > maxCol s3 then s3\<lparr>maxCol := c\<rparr> else s3))"

fun placeWordAt_loop ::
  "int \<Rightarrow> int \<Rightarrow> direction \<Rightarrow> int \<Rightarrow> string \<Rightarrow> build_state \<Rightarrow> build_state" where
  "placeWordAt_loop row col dir i [] st = st"
| "placeWordAt_loop row col dir i (ch # rest) st =
     placeWordAt_loop row col dir (i + 1) rest
       (write_cell (cell_r dir row i) (cell_c dir col i) ch st)"

definition placeWordAt ::
  "nat \<Rightarrow> string \<Rightarrow> int \<Rightarrow> int \<Rightarrow> direction \<Rightarrow> build_state \<Rightarrow> error + build_state" where
  "placeWordAt index ans row col dir st =
     (case canPlace ans row col dir st of
        (chk, st1) \<Rightarrow>
          (let ok = (case chk of
                       Some k \<Rightarrow> Some (bounds k)
                     | None \<Rightarrow>
                         if length (grid st1) = 0
                         then Some \<lparr>newMinRow = row, newMaxRow = row,
                                    newMinCol = col, newMaxCol = col\<rparr>
                         else None)
           in if ok = None \<and> length (grid st1) > 0 then Inl (InvalidPlacement ans)
              else
                (let st2 = placeWordAt_loop row col dir 0 ans st1
                 in Inr (st2\<lparr>placed := placed st2 @
                           [\<lparr>p_index = index, p_row = row, p_col = col, p_dir = dir,
                             p_answer = ans\<rparr>]\<rparr>))))"

text \<open>
  One candidate of \<^verbatim>\<open>bestPlacement\<close>: evaluate it with \<^verbatim>\<open>canPlace\<close> and keep it when
  there is no best so far or its score is strictly greater.
\<close>

definition try_candidate ::
  "string \<Rightarrow> int \<Rightarrow> int \<Rightarrow> direction \<Rightarrow> candidate option \<times> build_state
     \<Rightarrow> candidate option \<times> build_state" where
  "try_candidate ans row col dir acc =
     (case acc of
        (best, st) \<Rightarrow>
          (case canPlace ans row col dir st of
             (None, st1) \<Rightarrow> (best, st1)
           | (Some chk, st1) \<Rightarrow>
               (case best of
                  None \<Rightarrow>
                    (Some \<lparr>cand_row = row, cand_col = col, cand_dir = dir,
                           cand_score = score chk\<rparr>, st1)
                | Some b \<Rightarrow>
                    if score chk > cand_score b
                    then (Some \<lparr>cand_row = row, cand_col = col, cand_dir = dir,
                                 cand_score = score chk\<rparr>, st1)
                    else (best, st1))))"

text \<open>The inner loop over the existing cells, for the letter \<open>ch\<close> at index \<open>i\<close>.\<close>

fun bestPlacement_cells ::
  "string \<Rightarrow> int \<Rightarrow> char \<Rightarrow> sparse_grid \<Rightarrow> candidate option \<times> build_state
     \<Rightarrow> candidate option \<times> build_state" where
  "bestPlacement_cells ans i ch [] acc = acc"
| "bestPlacement_cells ans i ch (((gr, gc), cellCh) # others) acc =
     (if cellCh \<noteq> ch then bestPlacement_cells ans i ch others acc
      else bestPlacement_cells ans i ch others
             (try_candidate ans (gr - i) gc Down
                (try_candidate ans gr (gc - i) Across acc)))"

text \<open>The outer loop over the letters of the answer.\<close>

fun bestPlacement_loop ::
  "string \<Rightarrow> sparse_grid \<Rightarrow> int \<Rightarrow> string \<Rightarrow> candidate option \<times> build_state
     \<Rightarrow> candidate option \<times> build_state" where
  "bestPlacement_loop ans existingCells i [] acc = acc"
| "bestPlacement_loop ans existingCells i (ch # rest) acc =
     bestPlacement_loop ans existingCells (i + 1) rest
       (bestPlacement_cells ans i ch existingCells acc)"

definition bestPlacement :: "string \<Rightarrow> build_state \<Rightarrow> candidate option \<times> build_state" where
  "bestPlacement ans st =
     (let existingCells = grid st
      in if length existingCells = 0 then (None, st)
         else bestPlacement_loop ans existingCells 0 ans (None, st))"

text \<open>
  \<^verbatim>\<open>entries.map((e, idx) => ({idx, len})).sort((a, b) => b.len - a.len)\<close>: the sort of
  ECMAScript is stable, so the order is by decreasing length and, among equal lengths,
  by increasing index. \<open>sort_key\<close> is the stable insertion sort of the library.
\<close>

definition items_of :: "entry list \<Rightarrow> (nat \<times> nat) list" where
  "items_of entries = map (\<lambda>idx. (idx, length (answer (entries ! idx)))) [0..<length entries]"

definition order_of :: "entry list \<Rightarrow> (nat \<times> nat) list" where
  "order_of entries = sort_key (\<lambda>item. - int (snd item)) (items_of entries)"

fun buildGrid_loop :: "entry list \<Rightarrow> (nat \<times> nat) list \<Rightarrow> build_state \<Rightarrow> error + build_state" where
  "buildGrid_loop entries [] st = Inr st"
| "buildGrid_loop entries (item # others) st =
     (let index = fst item; ans = answer (entries ! index)
      in case bestPlacement ans st of
           (Some placement, st1) \<Rightarrow>
             (case placeWordAt index ans (cand_row placement) (cand_col placement)
                     (cand_dir placement) st1 of
                Inl e \<Rightarrow> Inl e
              | Inr st2 \<Rightarrow> buildGrid_loop entries others st2)
         | (None, st1) \<Rightarrow>
             (let tryRow = maxRow st1 + 2; tryCol = minCol st1
              in case placeWordAt index ans tryRow tryCol Across st1 of
                   Inl e \<Rightarrow> Inl e
                 | Inr st2 \<Rightarrow> buildGrid_loop entries others st2))"

text \<open>
  The body of \<^verbatim>\<open>buildGrid\<close> after the sort. \<^verbatim>\<open>order.shift()\<close> of an empty array is
  \<^verbatim>\<open>undefined\<close>, and reading \<^verbatim>\<open>first.idx\<close> then throws a \<^verbatim>\<open>TypeError\<close>.
\<close>

definition place_in_order :: "entry list \<Rightarrow> (nat \<times> nat) list \<Rightarrow> error + build_state" where
  "place_in_order entries order =
     (case order of
        [] \<Rightarrow> Inl TypeError
      | first # others \<Rightarrow>
          (case placeWordAt (fst first) (answer (entries ! fst first)) 0 0 Across init_state of
             Inl e \<Rightarrow> Inl e
           | Inr st \<Rightarrow> buildGrid_loop entries others st))"

definition buildGrid :: "entry list \<Rightarrow> error + build_state" where
  "buildGrid entries = place_in_order entries (order_of entries)"

section \<open>buildJson\<close>

text \<open>
  \<^verbatim>\<open>letterAt\<close>: the grid shifted to zero-based coordinates. Only \<^verbatim>\<open>has\<close> and \<^verbatim>\<open>get\<close> are
  used on it, so it is a map.
\<close>

definition letterAt_of :: "sparse_grid \<Rightarrow> int \<Rightarrow> int \<Rightarrow> (coord \<rightharpoonup> char)" where
  "letterAt_of g mr mc = fold (\<lambda>((r, c), ch) m. m((r - mr, c - mc) \<mapsto> ch)) g Map.empty"

definition hasLetter :: "(coord \<rightharpoonup> char) \<Rightarrow> int \<Rightarrow> int \<Rightarrow> bool" where
  "hasLetter letterAt r c = (letterAt (r, c) \<noteq> None)"

definition make_cell :: "(coord \<rightharpoonup> char) \<Rightarrow> int \<Rightarrow> int \<Rightarrow> cell" where
  "make_cell letterAt r c =
     (case letterAt (r, c) of
        Some ch \<Rightarrow>
          \<lparr>cell_row = r, cell_col = c, solution = Some ch, isBlock = False, cell_number = None\<rparr>
      | None \<Rightarrow>
          \<lparr>cell_row = r, cell_col = c, solution = None, isBlock = True, cell_number = None\<rparr>)"

definition make_gridJson :: "(coord \<rightharpoonup> char) \<Rightarrow> int \<Rightarrow> int \<Rightarrow> cell list list" where
  "make_gridJson letterAt nrows ncols =
     map (\<lambda>r. map (\<lambda>c. make_cell letterAt r c) [0..ncols - 1]) [0..nrows - 1]"

text \<open>
  \<^verbatim>\<open>startToEntry\<close>: the loop over \<^verbatim>\<open>placed\<close> throws at the first key that is already
  present. \<^verbatim>\<open>entries[p.index]\<close> out of range is \<^verbatim>\<open>undefined\<close>, here \<open>None\<close>.
\<close>

fun index_placements ::
  "entry list \<Rightarrow> int \<Rightarrow> int \<Rightarrow> placement list \<Rightarrow> start_map \<Rightarrow> error + start_map" where
  "index_placements entries mr mc [] m = Inr m"
| "index_placements entries mr mc (p # ps) m =
     (let sr = p_row p - mr; sc = p_col p - mc; k = (sr, sc, p_dir p)
      in if m k \<noteq> None then Inl (DuplicateStart k)
         else index_placements entries mr mc ps
                (m(k \<mapsto> (p_index p,
                     if p_index p < length entries then Some (entries ! p_index p) else None))))"

text \<open>
  \<^verbatim>\<open>gridJson[r][c].number = num\<close>; the scan calls it only with \<open>r\<close> and \<open>c\<close> inside the
  matrix.
\<close>

definition set_number :: "cell list list \<Rightarrow> int \<Rightarrow> int \<Rightarrow> nat \<Rightarrow> cell list list" where
  "set_number gj r c num =
     gj[nat r := (gj ! nat r)[nat c := (gj ! nat r ! nat c)\<lparr>cell_number := Some num\<rparr>]]"

definition assignNumber :: "int \<Rightarrow> int \<Rightarrow> scan_state \<Rightarrow> nat \<times> scan_state" where
  "assignNumber r c s =
     (case numbered s (r, c) of
        Some n \<Rightarrow> (n, s)
      | None \<Rightarrow>
          (let num = clueNumber s
           in (num, s\<lparr>clueNumber := num + 1,
                      numbered := (numbered s)((r, c) \<mapsto> num),
                      gridJson := set_number (gridJson s) r c num\<rparr>)))"

function takeRun ::
  "(coord \<rightharpoonup> char) \<Rightarrow> int \<Rightarrow> int \<Rightarrow> int \<Rightarrow> int \<Rightarrow> direction \<Rightarrow> coord list" where
  "takeRun letterAt nrows ncols rr cc dir =
     (if rr \<ge> 0 \<and> cc \<ge> 0 \<and> rr < nrows \<and> cc < ncols \<and> hasLetter letterAt rr cc
      then (rr, cc) #
             (if dir = Across then takeRun letterAt nrows ncols rr (cc + 1) dir
              else takeRun letterAt nrows ncols (rr + 1) cc dir)
      else [])"
  by pat_completeness auto
termination
  by (relation "measure (\<lambda>(letterAt, nrows, ncols, rr, cc, dir). nat (nrows - rr) + nat (ncols - cc))")
    auto

text \<open>
  The body of \<^verbatim>\<open>if (startsAcross)\<close> and of \<^verbatim>\<open>if (startsDown)\<close>. A mapped record whose
  \<^verbatim>\<open>entry\<close> is \<^verbatim>\<open>undefined\<close> makes \<^verbatim>\<open>mapped.entry.clue\<close> throw a \<^verbatim>\<open>TypeError\<close>.
\<close>

definition emit_clue ::
  "start_map \<Rightarrow> (coord \<rightharpoonup> char) \<Rightarrow> int \<Rightarrow> int \<Rightarrow> direction \<Rightarrow> int \<Rightarrow> int \<Rightarrow> nat
     \<Rightarrow> scan_state \<Rightarrow> error + scan_state" where
  "emit_clue startToEntry letterAt nrows ncols dir r c num s =
     (let run = takeRun letterAt nrows ncols r c dir
      in case startToEntry (r, c, dir) of
           None \<Rightarrow> Inl (MissingEntry (r, c, dir))
         | Some (idx, None) \<Rightarrow> Inl TypeError
         | Some (idx, Some e) \<Rightarrow>
             (let s1 = s\<lparr>usedEntries :=
                          (if idx \<in> set (usedEntries s) then usedEntries s
                           else usedEntries s @ [idx])\<rparr>;
                  cl = \<lparr>number = num, clue_text = clue e, cells = run\<rparr>
              in Inr (if dir = Across then s1\<lparr>acrossClues := acrossClues s1 @ [cl]\<rparr>
                      else s1\<lparr>downClues := downClues s1 @ [cl]\<rparr>)))"

definition startsAcross :: "(coord \<rightharpoonup> char) \<Rightarrow> int \<Rightarrow> int \<Rightarrow> bool" where
  "startsAcross letterAt r c = (\<not> hasLetter letterAt r (c - 1) \<and> hasLetter letterAt r (c + 1))"

definition startsDown :: "(coord \<rightharpoonup> char) \<Rightarrow> int \<Rightarrow> int \<Rightarrow> bool" where
  "startsDown letterAt r c = (\<not> hasLetter letterAt (r - 1) c \<and> hasLetter letterAt (r + 1) c)"

text \<open>The body of the two nested scanning loops, at the cell \<open>(r, c)\<close>.\<close>

definition scan_cell ::
  "start_map \<Rightarrow> (coord \<rightharpoonup> char) \<Rightarrow> int \<Rightarrow> int \<Rightarrow> coord \<Rightarrow> scan_state \<Rightarrow> error + scan_state" where
  "scan_cell startToEntry letterAt nrows ncols rc s =
     (case rc of
        (r, c) \<Rightarrow>
          if \<not> hasLetter letterAt r c then Inr s
          else if \<not> startsAcross letterAt r c \<and> \<not> startsDown letterAt r c then Inr s
          else
            (case assignNumber r c s of
               (num, s1) \<Rightarrow>
                 (case (if startsAcross letterAt r c
                        then emit_clue startToEntry letterAt nrows ncols Across r c num s1
                        else Inr s1) of
                    Inl e \<Rightarrow> Inl e
                  | Inr s2 \<Rightarrow>
                      if startsDown letterAt r c
                      then emit_clue startToEntry letterAt nrows ncols Down r c num s2
                      else Inr s2)))"

text \<open>The scan, over the cells in row-major order.\<close>

fun scan_cells ::
  "start_map \<Rightarrow> (coord \<rightharpoonup> char) \<Rightarrow> int \<Rightarrow> int \<Rightarrow> coord list \<Rightarrow> scan_state
     \<Rightarrow> error + scan_state" where
  "scan_cells startToEntry letterAt nrows ncols [] s = Inr s"
| "scan_cells startToEntry letterAt nrows ncols (rc # others) s =
     (case scan_cell startToEntry letterAt nrows ncols rc s of
        Inl e \<Rightarrow> Inl e
      | Inr s1 \<Rightarrow> scan_cells startToEntry letterAt nrows ncols others s1)"

definition scan_order :: "int \<Rightarrow> int \<Rightarrow> coord list" where
  "scan_order nrows ncols = List.product [0..nrows - 1] [0..ncols - 1]"

text \<open>\<^verbatim>\<open>entries[i].rawAnswer || entries[i].answer\<close>: an absent or empty raw answer is falsy.\<close>

definition display_answer :: "entry \<Rightarrow> string" where
  "display_answer e =
     (case rawAnswer e of
        Some raw \<Rightarrow> if raw \<noteq> [] then raw else answer e
      | None \<Rightarrow> answer e)"

definition missing_answers :: "entry list \<Rightarrow> nat list \<Rightarrow> string list" where
  "missing_answers entries used =
     map (\<lambda>i. display_answer (entries ! i))
       (filter (\<lambda>i. i \<notin> set used) [0..<length entries])"

text \<open>
  \<^verbatim>\<open>buildJson\<close> up to the end of the scanning loops: the shifted letters, the dense
  matrix, the index of the placements and the scan.
\<close>

definition letterAt_info :: "build_state \<Rightarrow> (coord \<rightharpoonup> char)" where
  "letterAt_info gridInfo = letterAt_of (grid gridInfo) (minRow gridInfo) (minCol gridInfo)"

definition rows_info :: "build_state \<Rightarrow> int" where
  "rows_info gridInfo = maxRow gridInfo - minRow gridInfo + 1"

definition cols_info :: "build_state \<Rightarrow> int" where
  "cols_info gridInfo = maxCol gridInfo - minCol gridInfo + 1"

definition startToEntry_info :: "entry list \<Rightarrow> build_state \<Rightarrow> error + start_map" where
  "startToEntry_info entries gridInfo =
     index_placements entries (minRow gridInfo) (minCol gridInfo) (placed gridInfo) Map.empty"

definition emit_clues :: "entry list \<Rightarrow> build_state \<Rightarrow> error + scan_state" where
  "emit_clues entries gridInfo =
     (let nrows = rows_info gridInfo;
          ncols = cols_info gridInfo;
          letterAt = letterAt_info gridInfo;
          gj = make_gridJson letterAt nrows ncols
      in case startToEntry_info entries gridInfo of
           Inl e \<Rightarrow> Inl e
         | Inr startToEntry \<Rightarrow>
             scan_cells startToEntry letterAt nrows ncols (scan_order nrows ncols)
               \<lparr>clueNumber = 1, numbered = Map.empty, gridJson = gj,
                acrossClues = [], downClues = [], usedEntries = []\<rparr>)"

definition buildJson :: "entry list \<Rightarrow> build_state \<Rightarrow> error + puzzle" where
  "buildJson entries gridInfo =
     (case emit_clues entries gridInfo of
        Inl e \<Rightarrow> Inl e
      | Inr s \<Rightarrow>
          if length (usedEntries s) \<noteq> length entries
          then Inl (UnusedEntries (missing_answers entries (usedEntries s)))
          else Inr \<lparr>title = ''Oscars Crossword'',
                    rows = rows_info gridInfo,
                    cols = cols_info gridInfo,
                    puzzle_grid = gridJson s,
                    clues_across = acrossClues s,
                    clues_down = downClues s\<rparr>)"

text \<open>\<^verbatim>\<open>main\<close> without the file input and output: it stops when there is no entry.\<close>

definition build :: "entry list \<Rightarrow> error + puzzle" where
  "build entries =
     (if length entries = 0 then Inl NoEntries
      else (case buildGrid entries of
              Inl e \<Rightarrow> Inl e
            | Inr gridInfo \<Rightarrow> buildJson entries gridInfo))"

section \<open>Notions used to state the properties\<close>

text \<open>The cell of the \<open>i\<close>-th letter of a word, and the letter the grid holds at a cell.\<close>

definition cell_at :: "direction \<Rightarrow> int \<Rightarrow> int \<Rightarrow> int \<Rightarrow> coord" where
  "cell_at dir row col i = (cell_r dir row i, cell_c dir col i)"

definition letter :: "build_state \<Rightarrow> coord \<Rightarrow> char option" where
  "letter st rc = map_of (grid st) rc"

text \<open>The cells of \<open>n\<close> letters from index \<open>i\<close> on.\<close>

definition word_cells :: "direction \<Rightarrow> int \<Rightarrow> int \<Rightarrow> int \<Rightarrow> nat \<Rightarrow> coord list" where
  "word_cells dir row col i n = map (\<lambda>j. cell_at dir row col (i + int j)) [0..<n]"

text \<open>
  The two neighbours of a cell across the axis of the word, and the test the loop of
  \<^verbatim>\<open>canPlace\<close> makes at one cell.
\<close>

definition side_cells :: "direction \<Rightarrow> coord \<Rightarrow> coord list" where
  "side_cells dir rc =
     (if dir = Across then [(fst rc - 1, snd rc), (fst rc + 1, snd rc)]
      else [(fst rc, snd rc - 1), (fst rc, snd rc + 1)])"

definition cell_ok :: "build_state \<Rightarrow> direction \<Rightarrow> coord \<Rightarrow> char \<Rightarrow> bool" where
  "cell_ok st dir rc ch =
     (case letter st rc of
        Some e \<Rightarrow> e = ch
      | None \<Rightarrow> list_all (\<lambda>s. letter st s = None) (side_cells dir rc))"

text \<open>Bounds widened to contain a list of cells; the bounds of a state.\<close>

definition widened :: "cp_bounds \<Rightarrow> coord list \<Rightarrow> cp_bounds" where
  "widened b cs =
     \<lparr>newMinRow = Min (set (newMinRow b # map fst cs)),
      newMaxRow = Max (set (newMaxRow b # map fst cs)),
      newMinCol = Min (set (newMinCol b # map snd cs)),
      newMaxCol = Max (set (newMaxCol b # map snd cs))\<rparr>"

definition bounds_of :: "build_state \<Rightarrow> cp_bounds" where
  "bounds_of st = \<lparr>newMinRow = minRow st, newMaxRow = maxRow st,
                    newMinCol = minCol st, newMaxCol = maxCol st\<rparr>"

text \<open>The four reasons for which \<^verbatim>\<open>canPlace\<close> returns \<^verbatim>\<open>null\<close>.\<close>

definition end_touch :: "string \<Rightarrow> int \<Rightarrow> int \<Rightarrow> direction \<Rightarrow> build_state \<Rightarrow> bool" where
  "end_touch ans row col dir st =
     (letter st (cell_at dir row col (- 1)) \<noteq> None \<or>
      letter st (cell_at dir row col (int (length ans))) \<noteq> None)"

definition letter_conflict :: "string \<Rightarrow> int \<Rightarrow> int \<Rightarrow> direction \<Rightarrow> build_state \<Rightarrow> bool" where
  "letter_conflict ans row col dir st =
     (\<exists>i \<in> {0..<length ans}.
        letter st (cell_at dir row col (int i)) \<noteq> None \<and>
        letter st (cell_at dir row col (int i)) \<noteq> Some (ans ! i))"

definition side_touch :: "string \<Rightarrow> int \<Rightarrow> int \<Rightarrow> direction \<Rightarrow> build_state \<Rightarrow> bool" where
  "side_touch ans row col dir st =
     (\<exists>i \<in> {0..<length ans}.
        letter st (cell_at dir row col (int i)) = None \<and>
        (\<exists>s \<in> set (side_cells dir (cell_at dir row col (int i))). letter st s \<noteq> None))"

definition no_crossing :: "string \<Rightarrow> int \<Rightarrow> int \<Rightarrow> direction \<Rightarrow> build_state \<Rightarrow> bool" where
  "no_crossing ans row col dir st =
     (grid st \<noteq> [] \<and>
      (\<forall>i \<in> {0..<length ans}. letter st (cell_at dir row col (int i)) \<noteq> Some (ans ! i)))"

text \<open>The score formula over given bounds, and the number of cells that hold a letter already.\<close>

definition committed_score :: "int \<Rightarrow> cp_bounds \<Rightarrow> int" where
  "committed_score n b =
     n * 1000 - (newMaxRow b - newMinRow b + 1) * (newMaxCol b - newMinCol b + 1)
       - \<bar>(newMaxCol b - newMinCol b + 1) - (newMaxRow b - newMinRow b + 1)\<bar> * 5"

definition crossings :: "string \<Rightarrow> int \<Rightarrow> int \<Rightarrow> direction \<Rightarrow> build_state \<Rightarrow> int" where
  "crossings ans row col dir st =
     int (length (filter (\<lambda>rc. letter st rc \<noteq> None) (word_cells dir row col 0 (length ans))))"

text \<open>
  The invariant of \<^verbatim>\<open>buildGrid\<close>: the keys of the grid are distinct, every letter lies
  inside the bounds, every placed word is on the grid with an empty cell before and after
  it, and the grid is empty exactly when only empty answers were placed.
\<close>

definition p_cell :: "placement \<Rightarrow> int \<Rightarrow> coord" where
  "p_cell p i = cell_at (p_dir p) (p_row p) (p_col p) i"

definition word_on_grid :: "build_state \<Rightarrow> placement \<Rightarrow> bool" where
  "word_on_grid st p =
     (\<forall>j<length (p_answer p). letter st (p_cell p (int j)) = Some (p_answer p ! j))"

definition word_bounded :: "build_state \<Rightarrow> placement \<Rightarrow> bool" where
  "word_bounded st p =
     (p_answer p \<noteq> [] \<longrightarrow>
        letter st (p_cell p (- 1)) = None \<and>
        letter st (p_cell p (int (length (p_answer p)))) = None)"

definition in_bounds :: "build_state \<Rightarrow> coord \<Rightarrow> bool" where
  "in_bounds st rc =
     (minRow st \<le> fst rc \<and> fst rc \<le> maxRow st \<and> minCol st \<le> snd rc \<and> snd rc \<le> maxCol st)"

definition grid_inv :: "build_state \<Rightarrow> bool" where
  "grid_inv st =
     (distinct (map fst (grid st)) \<and>
      (\<forall>rc. letter st rc \<noteq> None \<longrightarrow> in_bounds st rc) \<and>
      (\<forall>p \<in> set (placed st). word_on_grid st p \<and> word_bounded st p) \<and>
      (grid st = [] \<longrightarrow> (\<forall>p \<in> set (placed st). p_answer p = [])) \<and>
      (grid st \<noteq> [] \<longrightarrow> (\<forall>p \<in> set (placed st). p_answer p \<noteq> [])))"

text \<open>The order in which \<^verbatim>\<open>buildGrid\<close> places: no answer is longer than one before it.\<close>

definition longer_first :: "entry list \<Rightarrow> (nat \<times> nat) list \<Rightarrow> bool" where
  "longer_first entries items =
     sorted_wrt (\<lambda>a b. length (answer (entries ! fst b)) \<le> length (answer (entries ! fst a))) items"

text \<open>
  The key of a placement in \<^verbatim>\<open>startToEntry\<close> and the record stored under it; a cell
  of the dense matrix.
\<close>

definition start_rel :: "int \<Rightarrow> int \<Rightarrow> placement \<Rightarrow> start_key" where
  "start_rel mr mc p = (p_row p - mr, p_col p - mc, p_dir p)"

definition entry_of :: "entry list \<Rightarrow> placement \<Rightarrow> nat \<times> entry option" where
  "entry_of entries p =
     (p_index p, if p_index p < length entries then Some (entries ! p_index p) else None)"

definition in_matrix :: "int \<Rightarrow> int \<Rightarrow> coord \<Rightarrow> bool" where
  "in_matrix nrows ncols rc = (0 \<le> fst rc \<and> fst rc < nrows \<and> 0 \<le> snd rc \<and> snd rc < ncols)"

text \<open>
  What the scan of \<^verbatim>\<open>buildJson\<close> does over a list of cells: a clue for each start, in
  order, the indices used, and solutions left as they were.
\<close>

definition is_start :: "(coord \<rightharpoonup> char) \<Rightarrow> direction \<Rightarrow> coord \<Rightarrow> bool" where
  "is_start la dir rc =
     (hasLetter la (fst rc) (snd rc) \<and>
      (if dir = Across then startsAcross la (fst rc) (snd rc)
       else startsDown la (fst rc) (snd rc)))"

definition clue_at ::
  "start_map \<Rightarrow> (coord \<rightharpoonup> char) \<Rightarrow> int \<Rightarrow> int \<Rightarrow> direction \<Rightarrow> clue_rec \<Rightarrow> coord \<Rightarrow> bool" where
  "clue_at sm la nrows ncols dir cl rc =
     (cells cl = takeRun la nrows ncols (fst rc) (snd rc) dir \<and>
      (\<exists>idx e. sm (fst rc, snd rc, dir) = Some (idx, Some e) \<and> clue_text cl = clue e))"

definition used_at :: "start_map \<Rightarrow> (coord \<rightharpoonup> char) \<Rightarrow> coord list \<Rightarrow> nat set" where
  "used_at sm la rcs =
     {idx. \<exists>rc \<in> set rcs. \<exists>dir eo. is_start la dir rc \<and> sm (fst rc, snd rc, dir) = Some (idx, eo)}"

definition scan_rel ::
  "start_map \<Rightarrow> (coord \<rightharpoonup> char) \<Rightarrow> int \<Rightarrow> int \<Rightarrow> coord list \<Rightarrow> scan_state \<Rightarrow> scan_state \<Rightarrow> bool" where
  "scan_rel sm la nrows ncols rcs s s' =
     ((\<exists>as. acrossClues s' = acrossClues s @ as \<and>
            list_all2 (clue_at sm la nrows ncols Across) as (filter (is_start la Across) rcs)) \<and>
      (\<exists>ds. downClues s' = downClues s @ ds \<and>
            list_all2 (clue_at sm la nrows ncols Down) ds (filter (is_start la Down) rcs)) \<and>
      set (usedEntries s') = set (usedEntries s) \<union> used_at sm la rcs \<and>
      (distinct (usedEntries s) \<longrightarrow> distinct (usedEntries s')) \<and>
      map (map solution) (gridJson s') = map (map solution) (gridJson s))"

definition used_one :: "start_map \<Rightarrow> (coord \<rightharpoonup> char) \<Rightarrow> direction \<Rightarrow> coord \<Rightarrow> nat set" where
  "used_one sm la dir rc =
     {idx. is_start la dir rc \<and> (\<exists>eo. sm (fst rc, snd rc, dir) = Some (idx, eo))}"

text \<open>The start and direction of a placement; the state in which the scan begins.\<close>

definition start_of :: "placement \<Rightarrow> start_key" where
  "start_of p = (p_row p, p_col p, p_dir p)"

definition scan_start :: "build_state \<Rightarrow> scan_state" where
  "scan_start gridInfo =
     \<lparr>clueNumber = 1, numbered = Map.empty,
      gridJson = make_gridJson (letterAt_info gridInfo) (rows_info gridInfo) (cols_info gridInfo),
      acrossClues = [], downClues = [], usedEntries = []\<rparr>"

text \<open>The zero-based start of a placement.\<close>

definition rel_row :: "build_state \<Rightarrow> placement \<Rightarrow> int" where
  "rel_row gridInfo p = p_row p - minRow gridInfo"

definition rel_col :: "build_state \<Rightarrow> placement \<Rightarrow> int" where
  "rel_col gridInfo p = p_col p - minCol gridInfo"

text \<open>The solution letter of the compiled matrix at a cell.\<close>

definition solution_at :: "puzzle \<Rightarrow> coord \<Rightarrow> char option" where
  "solution_at pz rc = solution (puzzle_grid pz ! nat (fst rc) ! nat (snd rc))"




text \<open>
  The contract of \<^verbatim>\<open>Array.prototype.sort\<close> with the comparator \<^verbatim>\<open>(a, b) => b.len - a.len\<close>:
  the result is a permutation, no item is followed by one that the comparator puts before
  it, and items of equal length keep their input order.
\<close>

definition js_sorted :: "(nat \<times> nat) list \<Rightarrow> (nat \<times> nat) list \<Rightarrow> bool" where
  "js_sorted items order =
     (mset order = mset items \<and>
      sorted_wrt (\<lambda>a b. int (snd b) - int (snd a) \<le> 0) order \<and>
      (\<forall>k \<in> set order.
         filter (\<lambda>x. snd x = snd k) order = filter (\<lambda>x. snd x = snd k) items))"

text \<open>A run of \<^verbatim>\<open>main\<close> with some sort that meets the contract.\<close>

definition runs :: "entry list \<Rightarrow> error + puzzle \<Rightarrow> bool" where
  "runs entries out =
     (\<exists>order. js_sorted (items_of entries) order \<and>
        out = (if length entries = 0 then Inl NoEntries
               else (case place_in_order entries order of
                       Inl e \<Rightarrow> Inl e
                     | Inr gridInfo \<Rightarrow> buildJson entries gridInfo)))"

section \<open>Concrete inputs\<close>

definition cat_ace :: "entry list" where
  "cat_ace = [\<lparr>answer = ''CAT'', clue = ''Feline pet'', rawAnswer = None\<rparr>,
              \<lparr>answer = ''ACE'', clue = ''Top card'', rawAnswer = None\<rparr>]"

definition cat_seed :: build_state where
  "cat_seed =
     \<lparr>grid = [((0, 0), CHR ''C''), ((0, 1), CHR ''A''), ((0, 2), CHR ''T'')],
      placed = [\<lparr>p_index = 0, p_row = 0, p_col = 0, p_dir = Across, p_answer = ''CAT''\<rparr>],
      minRow = 0, maxRow = 0, minCol = 0, maxCol = 2\<rparr>"

definition cat_ace_info :: build_state where
  "cat_ace_info =
     \<lparr>grid = [((0, 0), CHR ''C''), ((0, 1), CHR ''A''), ((0, 2), CHR ''T''),
              ((1, 1), CHR ''C''), ((2, 1), CHR ''E'')],
      placed = [\<lparr>p_index = 0, p_row = 0, p_col = 0, p_dir = Across, p_answer = ''CAT''\<rparr>,
                \<lparr>p_index = 1, p_row = 0, p_col = 1, p_dir = Down, p_answer = ''ACE''\<rparr>],
      minRow = 0, maxRow = 2, minCol = 0, maxCol = 2\<rparr>"

definition letter_cell :: "int \<Rightarrow> int \<Rightarrow> char \<Rightarrow> nat option \<Rightarrow> cell" where
  "letter_cell r c ch num =
     \<lparr>cell_row = r, cell_col = c, solution = Some ch, isBlock = False, cell_number = num\<rparr>"

definition block_cell :: "int \<Rightarrow> int \<Rightarrow> cell" where
  "block_cell r c =
     \<lparr>cell_row = r, cell_col = c, solution = None, isBlock = True, cell_number = None\<rparr>"

definition cat_ace_puzzle :: puzzle where
  "cat_ace_puzzle =
     \<lparr>title = ''Oscars Crossword'', rows = 3, cols = 3,
      puzzle_grid =
        [[letter_cell 0 0 CHR ''C'' (Some 1), letter_cell 0 1 CHR ''A'' (Some 2),
          letter_cell 0 2 CHR ''T'' None],
         [block_cell 1 0, letter_cell 1 1 CHR ''C'' None, block_cell 1 2],
         [block_cell 2 0, letter_cell 2 1 CHR ''E'' None, block_cell 2 2]],
      clues_across =
        [\<lparr>number = 1, clue_text = ''Feline pet'', cells = [(0, 0), (0, 1), (0, 2)]\<rparr>],
      clues_down =
        [\<lparr>number = 2, clue_text = ''Top card'', cells = [(0, 1), (1, 1), (2, 1)]\<rparr>]\<rparr>"

definition cat_dog :: "entry list" where
  "cat_dog = [\<lparr>answer = ''CAT'', clue = ''Feline pet'', rawAnswer = None\<rparr>,
              \<lparr>answer = ''DOG'', clue = ''Canine pet'', rawAnswer = None\<rparr>]"

definition cat_cat :: "entry list" where
  "cat_cat = [\<lparr>answer = ''CAT'', clue = ''Feline pet'', rawAnswer = None\<rparr>,
              \<lparr>answer = ''CAT'', clue = ''Tom, for one'', rawAnswer = None\<rparr>]"

definition cat_cat_info :: build_state where
  "cat_cat_info =
     \<lparr>grid = [((0, 0), CHR ''C''), ((0, 1), CHR ''A''), ((0, 2), CHR ''T'')],
      placed = [\<lparr>p_index = 0, p_row = 0, p_col = 0, p_dir = Across, p_answer = ''CAT''\<rparr>,
                \<lparr>p_index = 1, p_row = 0, p_col = 0, p_dir = Across, p_answer = ''CAT''\<rparr>],
      minRow = 0, maxRow = 0, minCol = 0, maxCol = 2\<rparr>"

definition one_a :: "entry list" where
  "one_a = [\<lparr>answer = ''A'', clue = ''First letter'', rawAnswer = Some ''a''\<rparr>]"




section \<open>Closed forms and evaluation\<close>

lemma widen_eq:
  "widen b r c =
     \<lparr>newMinRow = min (newMinRow b) r, newMaxRow = max (newMaxRow b) r,
      newMinCol = min (newMinCol b) c, newMaxCol = max (newMaxCol b) c\<rparr>"
  by (simp add: widen_def Let_def min_def max_def)

lemma write_cell_eq:
  "write_cell r c ch st =
     \<lparr>grid = AList.update (r, c) ch (grid st), placed = placed st,
      minRow = min (minRow st) r, maxRow = max (maxRow st) r,
      minCol = min (minCol st) c, maxCol = max (maxCol st) c\<rparr>"
  by (simp add: write_cell_def Let_def min_def max_def)

lemmas grid_eval =
  buildGrid_def place_in_order_def order_of_def items_of_def placeWordAt_def canPlace_def has_def get_def cell_r_def
  cell_c_def widen_eq write_cell_eq init_state_def bestPlacement_def try_candidate_def Let_def
  canPlace_loop.simps

lemmas json_eval =
  buildJson_def emit_clues_def letterAt_info_def letterAt_of_def rows_info_def cols_info_def
  startToEntry_info_def make_gridJson_def make_cell_def scan_order_def scan_cell_def
  startsAcross_def startsDown_def hasLetter_def assignNumber_def set_number_def emit_clue_def
  takeRun.simps upto.simps missing_answers_def display_answer_def Let_def
  index_placements.simps

text \<open>The equation of \<open>takeRun\<close> is recursive under a condition: it is unfolded by hand.\<close>

declare takeRun.simps [simp del]

lemma canPlace_state: "snd (canPlace ans row col dir st) = st"
  by (simp add: canPlace_def Let_def split: option.splits prod.splits)

section \<open>The loops of canPlace and placeWordAt\<close>

lemma word_cells_0 [simp]: "word_cells dir row col i 0 = []"
  by (simp add: word_cells_def)

lemma word_cells_Suc:
  "word_cells dir row col i (Suc n) = cell_at dir row col i # word_cells dir row col (i + 1) n"
proof -
  have "[0..<Suc n] = 0 # map Suc [0..<n]"
    by (simp add: upt_conv_Cons map_Suc_upt del: upt_Suc)
  then show ?thesis
    by (simp add: word_cells_def o_def add.assoc del: upt_Suc)
qed

lemma length_word_cells [simp]: "length (word_cells dir row col i n) = n"
  by (simp add: word_cells_def)

lemma nth_word_cells [simp]:
  "j < n \<Longrightarrow> word_cells dir row col i n ! j = cell_at dir row col (i + int j)"
  by (simp add: word_cells_def)

lemma set_word_cells:
  "set (word_cells dir row col i n) = (\<lambda>j. cell_at dir row col (i + int j)) ` {0..<n}"
  by (simp add: word_cells_def)

lemma cell_at_inj [simp]: "cell_at dir row col i = cell_at dir row col j \<longleftrightarrow> i = j"
  by (simp add: cell_at_def cell_r_def cell_c_def)

lemma distinct_word_cells [simp]: "distinct (word_cells dir row col i n)"
  by (simp add: word_cells_def distinct_map inj_on_def)

lemma widened_Nil [simp]: "widened b [] = b"
  by (simp add: widened_def)

lemma widened_Cons: "widened b ((r, c) # cs) = widened (widen b r c) cs"
proof -
  have mn: "\<And>x y (xs :: int list). Min (set (x # y # xs)) = Min (set (min x y # xs))"
    unfolding Min.set_eq_fold by (simp add: min.commute)
  have mx: "\<And>x y (xs :: int list). Max (set (x # y # xs)) = Max (set (max x y # xs))"
    unfolding Max.set_eq_fold by (simp add: max.commute)
  show ?thesis
    unfolding widened_def widen_eq
    by (simp only: list.map fst_conv snd_conv mn mx cp_bounds.simps)
qed

lemma has_letter: "has st r c \<longleftrightarrow> letter st (r, c) \<noteq> None"
  by (simp add: has_def letter_def)

lemma get_letter: "get st r c = letter st (r, c)"
  by (simp add: get_def letter_def)

lemma canPlace_loop_step:
  "canPlace_loop st row col dir i (ch # rest) (n, b) =
     (if cell_ok st dir (cell_at dir row col i) ch
      then canPlace_loop st row col dir (i + 1) rest
             (if letter st (cell_at dir row col i) \<noteq> None then n + 1 else n,
              widen b (cell_r dir row i) (cell_c dir col i))
      else None)"
  by (auto simp: cell_ok_def cell_at_def side_cells_def has_letter get_letter Let_def
      split: option.splits)

declare canPlace_loop.simps(2) [simp del]

lemma canPlace_loop_None_iff:
  "canPlace_loop st row col dir i rest (n, b) = None \<longleftrightarrow>
     (\<exists>j<length rest. \<not> cell_ok st dir (cell_at dir row col (i + int j)) (rest ! j))"
proof (induction rest arbitrary: i n b)
  case Nil
  then show ?case by simp
next
  case (Cons ch rest)
  have "(\<exists>j<length (ch # rest). \<not> cell_ok st dir (cell_at dir row col (i + int j)) ((ch # rest) ! j))
    \<longleftrightarrow> \<not> cell_ok st dir (cell_at dir row col i) ch \<or>
        (\<exists>j<length rest. \<not> cell_ok st dir (cell_at dir row col (i + 1 + int j)) (rest ! j))"
    by (auto simp: less_Suc_eq_0_disj add.assoc)
  then show ?case
    by (simp add: canPlace_loop_step Cons.IH)
qed

lemma canPlace_loop_Some:
  "canPlace_loop st row col dir i rest (n, b) = Some (n', b') \<Longrightarrow>
     n' = n + int (length (filter (\<lambda>rc. letter st rc \<noteq> None)
                     (word_cells dir row col i (length rest)))) \<and>
     b' = widened b (word_cells dir row col i (length rest))"
proof (induction rest arbitrary: i n b)
  case Nil
  then show ?case by simp
next
  case (Cons ch rest)
  define n2 where "n2 = (if letter st (cell_at dir row col i) \<noteq> None then n + 1 else n)"
  from Cons.prems have rec: "canPlace_loop st row col dir (i + 1) rest
              (n2, widen b (cell_r dir row i) (cell_c dir col i)) = Some (n', b')"
    by (simp add: canPlace_loop_step n2_def split: if_splits)
  from Cons.IH[OF rec] show ?case
    by (simp add: word_cells_Suc widened_Cons[symmetric] cell_at_def n2_def)
qed

lemma not_cell_ok_iff:
  "(\<exists>j<length ans. \<not> cell_ok st dir (cell_at dir row col (int j)) (ans ! j)) \<longleftrightarrow>
     letter_conflict ans row col dir st \<or> side_touch ans row col dir st"
proof -
  have pt: "\<not> cell_ok st dir rc ch \<longleftrightarrow>
      (letter st rc \<noteq> None \<and> letter st rc \<noteq> Some ch) \<or>
      (letter st rc = None \<and> (\<exists>s \<in> set (side_cells dir rc). letter st s \<noteq> None))" for rc ch
    by (auto simp: cell_ok_def list_all_iff split: option.splits)
  have "(\<exists>j<length ans. \<not> cell_ok st dir (cell_at dir row col (int j)) (ans ! j)) \<longleftrightarrow>
        (\<exists>j \<in> {0..<length ans}. \<not> cell_ok st dir (cell_at dir row col (int j)) (ans ! j))"
    by auto
  then show ?thesis
    unfolding letter_conflict_def side_touch_def pt by (simp only: bex_disj_distrib)
qed

lemma canPlace_ends:
  "(if dir = Across then has st row (col - 1) \<or> has st row (col + int (length ans))
    else has st (row - 1) col \<or> has st (row + int (length ans)) col) \<longleftrightarrow>
   end_touch ans row col dir st"
  by (simp add: end_touch_def has_letter cell_at_def cell_r_def cell_c_def)

lemma canPlace_None_iff:
  "fst (canPlace ans row col dir st) = None \<longleftrightarrow>
     end_touch ans row col dir st \<or>
     canPlace_loop st row col dir 0 ans (0, bounds_of st) = None \<or>
     (grid st \<noteq> [] \<and>
      filter (\<lambda>rc. letter st rc \<noteq> None) (word_cells dir row col 0 (length ans)) = [])"
proof (cases "canPlace_loop st row col dir 0 ans (0, bounds_of st)")
  case None
  then show ?thesis
    by (simp add: canPlace_def Let_def canPlace_ends bounds_of_def)
next
  case (Some a)
  obtain n b where a: "a = (n, b)" by (cases a)
  from canPlace_loop_Some[OF Some[unfolded a]] have
    "n = int (length (filter (\<lambda>rc. letter st rc \<noteq> None) (word_cells dir row col 0 (length ans))))"
    by simp
  then have "n = 0 \<longleftrightarrow> filter (\<lambda>rc. letter st rc \<noteq> None) (word_cells dir row col 0 (length ans)) = []"
    by simp
  with Some a show ?thesis
    by (simp add: canPlace_def Let_def canPlace_ends bounds_of_def[symmetric, simplified])
qed

lemma letter_write_cell:
  "letter (write_cell r c ch st) rc = (if rc = (r, c) then Some ch else letter st rc)"
  by (simp add: write_cell_eq letter_def update_conv')

lemma placed_write_cell [simp]: "placed (write_cell r c ch st) = placed st"
  by (simp add: write_cell_eq)

lemma bounds_of_write_cell: "bounds_of (write_cell r c ch st) = widen (bounds_of st) r c"
  by (simp add: write_cell_eq bounds_of_def widen_eq)

lemma placed_placeWordAt_loop [simp]:
  "placed (placeWordAt_loop row col dir i rest st) = placed st"
  by (induction rest arbitrary: i st) simp_all

lemma bounds_of_placeWordAt_loop:
  "bounds_of (placeWordAt_loop row col dir i rest st) =
     widened (bounds_of st) (word_cells dir row col i (length rest))"
  by (induction rest arbitrary: i st)
    (simp_all add: word_cells_Suc cell_at_def widened_Cons bounds_of_write_cell)

lemma letter_placeWordAt_loop_other:
  "rc \<notin> set (word_cells dir row col i (length rest)) \<Longrightarrow>
     letter (placeWordAt_loop row col dir i rest st) rc = letter st rc"
  by (induction rest arbitrary: i st)
    (auto simp: word_cells_Suc letter_write_cell cell_at_def)

lemma cell_at_notin_later:
  "cell_at dir row col i \<notin> set (word_cells dir row col (i + 1) n)"
  by (auto simp: set_word_cells)

lemma letter_placeWordAt_loop_cell:
  "j < length rest \<Longrightarrow>
     letter (placeWordAt_loop row col dir i rest st) (cell_at dir row col (i + int j)) =
       Some (rest ! j)"
proof (induction rest arbitrary: i j st)
  case Nil
  then show ?case by simp
next
  case (Cons ch rest)
  show ?case
  proof (cases j)
    case 0
    have "letter (placeWordAt_loop row col dir (i + 1) rest
                    (write_cell (cell_r dir row i) (cell_c dir col i) ch st))
            (cell_at dir row col i) =
          letter (write_cell (cell_r dir row i) (cell_c dir col i) ch st) (cell_at dir row col i)"
      by (rule letter_placeWordAt_loop_other[OF cell_at_notin_later])
    with 0 show ?thesis
      by (simp add: letter_write_cell cell_at_def)
  next
    case (Suc k)
    with Cons.prems have "k < length rest" by simp
    have e: "i + int j = i + 1 + int k" using Suc by simp
    have n: "(ch # rest) ! j = rest ! k" using Suc by simp
    show ?thesis
      unfolding placeWordAt_loop.simps e n by (rule Cons.IH[OF \<open>k < length rest\<close>])
  qed
qed

lemma letter_placeWordAt_loop_dom:
  "letter (placeWordAt_loop row col dir i rest st) rc \<noteq> None \<longleftrightarrow>
     letter st rc \<noteq> None \<or> rc \<in> set (word_cells dir row col i (length rest))"
proof (cases "rc \<in> set (word_cells dir row col i (length rest))")
  case True
  then obtain j where "j < length rest" "rc = cell_at dir row col (i + int j)"
    by (auto simp: set_word_cells)
  with True show ?thesis by (simp add: letter_placeWordAt_loop_cell)
next
  case False
  then show ?thesis by (simp add: letter_placeWordAt_loop_other)
qed

lemma distinct_keys_write_cell:
  "distinct (map fst (grid st)) \<Longrightarrow> distinct (map fst (grid (write_cell r c ch st)))"
  by (simp add: write_cell_eq distinct_update)

lemma distinct_keys_placeWordAt_loop:
  "distinct (map fst (grid st)) \<Longrightarrow>
     distinct (map fst (grid (placeWordAt_loop row col dir i rest st)))"
  by (induction rest arbitrary: i st) (simp_all add: distinct_keys_write_cell)

lemma grid_empty_iff: "grid st = [] \<longleftrightarrow> (\<forall>rc. letter st rc = None)"
proof
  assume "grid st = []" then show "\<forall>rc. letter st rc = None" by (simp add: letter_def)
next
  assume a: "\<forall>rc. letter st rc = None"
  show "grid st = []"
  proof (cases "grid st")
    case Nil then show ?thesis .
  next
    case (Cons kv kvs)
    then have "letter st (fst kv) = Some (snd kv)" by (cases kv) (simp add: letter_def)
    with a[rule_format, of "fst kv"] show ?thesis by simp
  qed
qed

lemma placeWordAt_cases:
  "placeWordAt index ans row col dir st =
     (if fst (canPlace ans row col dir st) = None \<and> grid st \<noteq> []
      then Inl (InvalidPlacement ans)
      else Inr ((placeWordAt_loop row col dir 0 ans st)
                  \<lparr>placed := placed st @
                     [\<lparr>p_index = index, p_row = row, p_col = col, p_dir = dir,
                       p_answer = ans\<rparr>]\<rparr>))"
proof -
  obtain chk st1 where c: "canPlace ans row col dir st = (chk, st1)"
    by (cases "canPlace ans row col dir st")
  with canPlace_state[of ans row col dir st] have st1: "st1 = st" by simp
  show ?thesis
    by (cases chk) (auto simp: placeWordAt_def c st1 Let_def)
qed

lemma canPlace_Some:
  assumes "fst (canPlace ans row col dir st) = Some chk"
  shows "intersections chk = crossings ans row col dir st"
    and "bounds chk = widened (bounds_of st) (word_cells dir row col 0 (length ans))"
    and "score chk = committed_score (intersections chk) (bounds chk)"
    and "canPlace_loop st row col dir 0 ans (0, bounds_of st) = Some (intersections chk, bounds chk)"
proof -
  from assms obtain n b where
    loop: "canPlace_loop st row col dir 0 ans (0, bounds_of st) = Some (n, b)"
    and chk: "chk = \<lparr>intersections = n,
        score = n * 1000 - (newMaxRow b - newMinRow b + 1) * (newMaxCol b - newMinCol b + 1)
          - \<bar>(newMaxCol b - newMinCol b + 1) - (newMaxRow b - newMinRow b + 1)\<bar> * 5,
        bounds = b\<rparr>"
    by (auto simp: canPlace_def Let_def bounds_of_def split: if_splits option.splits)
  from canPlace_loop_Some[OF loop] chk loop
  show "intersections chk = crossings ans row col dir st"
    and "bounds chk = widened (bounds_of st) (word_cells dir row col 0 (length ans))"
    and "score chk = committed_score (intersections chk) (bounds chk)"
    and "canPlace_loop st row col dir 0 ans (0, bounds_of st) = Some (intersections chk, bounds chk)"
    by (simp_all add: crossings_def committed_score_def)
qed

section \<open>The invariant of buildGrid\<close>

lemma word_letter:
  assumes "word_on_grid st p" "0 \<le> k" "k < int (length (p_answer p))"
  shows "letter st (p_cell p k) \<noteq> None"
proof -
  from assms have "nat k < length (p_answer p)" by simp
  with assms(1) have "letter st (p_cell p (int (nat k))) = Some (p_answer p ! nat k)"
    unfolding word_on_grid_def by blast
  with assms(2) show ?thesis by simp
qed

lemma no_overlap_end:
  assumes on: "word_on_grid st p" and ne: "p_answer p \<noteq> []"
    and X: "X = p_cell p (- 1) \<or> X = p_cell p (int (length (p_answer p)))"
    and Xq: "X = cell_at dir row col (int j)" and j: "j < length ans"
    and len: "length ans \<le> length (p_answer p)"
    and empty: "letter st X = None"
    and ok: "cell_ok st dir X ch"
    and ends: "\<not> end_touch ans row col dir st"
  shows False
proof (cases "dir = p_dir p")
  case False
  from ok empty have side: "\<forall>s \<in> set (side_cells dir X). letter st s = None"
    by (simp add: cell_ok_def list_all_iff)
  from ne have n0: "0 < int (length (p_answer p))" by simp
  from X show False
  proof
    assume "X = p_cell p (- 1)"
    with False have "p_cell p 0 \<in> set (side_cells dir X)"
      by (cases dir; cases "p_dir p")
        (simp_all add: side_cells_def p_cell_def cell_at_def cell_r_def cell_c_def)
    with side word_letter[OF on _ n0] show False by simp
  next
    assume "X = p_cell p (int (length (p_answer p)))"
    with False have "p_cell p (int (length (p_answer p)) - 1) \<in> set (side_cells dir X)"
      by (cases dir; cases "p_dir p")
        (simp_all add: side_cells_def p_cell_def cell_at_def cell_r_def cell_c_def)
    with side word_letter[OF on, of "int (length (p_answer p)) - 1"] n0 show False by simp
  qed
next
  case True
  from X show False
  proof
    assume x: "X = p_cell p (- 1)"
    define k where "k = int (length ans) - 1 - int j"
    from j len have k: "0 \<le> k" "k < int (length (p_answer p))" by (simp_all add: k_def)
    from x Xq True have "cell_at dir row col (int (length ans)) = p_cell p k"
      by (cases dir) (auto simp: p_cell_def cell_at_def cell_r_def cell_c_def k_def)
    with word_letter[OF on k] ends show False by (simp add: end_touch_def)
  next
    assume x: "X = p_cell p (int (length (p_answer p)))"
    define k where "k = int (length (p_answer p)) - 1 - int j"
    from j len have k: "0 \<le> k" "k < int (length (p_answer p))" by (simp_all add: k_def)
    from x Xq True have "cell_at dir row col (- 1) = p_cell p k"
      by (cases dir) (auto simp: p_cell_def cell_at_def cell_r_def cell_c_def k_def)
    with word_letter[OF on k] ends show False by (simp add: end_touch_def)
  qed
qed

lemma widened_contains:
  assumes "b' = widened b cs"
  shows "newMinRow b' \<le> newMinRow b" "newMaxRow b \<le> newMaxRow b'"
    "newMinCol b' \<le> newMinCol b" "newMaxCol b \<le> newMaxCol b'"
    "rc \<in> set cs \<Longrightarrow> newMinRow b' \<le> fst rc \<and> fst rc \<le> newMaxRow b' \<and>
        newMinCol b' \<le> snd rc \<and> snd rc \<le> newMaxCol b'"
  using assms by (auto simp: widened_def intro!: Min_le Max_ge)

lemma placeWordAt_Inr:
  assumes "placeWordAt index ans row col dir st = Inr st'"
  shows "st' = (placeWordAt_loop row col dir 0 ans st)
                  \<lparr>placed := placed st @
                     [\<lparr>p_index = index, p_row = row, p_col = col, p_dir = dir,
                       p_answer = ans\<rparr>]\<rparr>"
    and "\<not> end_touch ans row col dir st"
    and "\<forall>j<length ans. cell_ok st dir (cell_at dir row col (int j)) (ans ! j)"
    and "grid st \<noteq> [] \<Longrightarrow> \<exists>j<length ans. letter st (cell_at dir row col (int j)) \<noteq> None"
proof -
  from assms show "st' = (placeWordAt_loop row col dir 0 ans st)
                  \<lparr>placed := placed st @
                     [\<lparr>p_index = index, p_row = row, p_col = col, p_dir = dir,
                       p_answer = ans\<rparr>]\<rparr>"
    by (simp add: placeWordAt_cases split: if_splits)
  from assms have c: "fst (canPlace ans row col dir st) \<noteq> None \<or> grid st = []"
    by (auto simp: placeWordAt_cases split: if_splits)
  have e: "grid st = [] \<Longrightarrow> letter st rc = None" for rc
    by (simp add: letter_def)
  from c show "\<not> end_touch ans row col dir st"
    by (auto simp: canPlace_None_iff end_touch_def e)
  from c show "\<forall>j<length ans. cell_ok st dir (cell_at dir row col (int j)) (ans ! j)"
  proof
    assume "fst (canPlace ans row col dir st) \<noteq> None"
    then have "canPlace_loop st row col dir 0 ans (0, bounds_of st) \<noteq> None"
      by (simp add: canPlace_None_iff)
    then show ?thesis by (simp add: canPlace_loop_None_iff)
  next
    assume "grid st = []"
    then show ?thesis by (simp add: cell_ok_def list_all_iff e)
  qed
  show "\<exists>j<length ans. letter st (cell_at dir row col (int j)) \<noteq> None" if g: "grid st \<noteq> []"
  proof -
    from c g have "filter (\<lambda>rc. letter st rc \<noteq> None) (word_cells dir row col 0 (length ans)) \<noteq> []"
      by (simp add: canPlace_None_iff)
    then obtain rc where "rc \<in> set (word_cells dir row col 0 (length ans))" "letter st rc \<noteq> None"
      by (auto simp: filter_empty_conv)
    then show ?thesis by (auto simp: set_word_cells)
  qed
qed

lemma letter_placed_update [simp]: "letter (st\<lparr>placed := ps\<rparr>) = letter st"
  by (rule ext) (simp add: letter_def)

lemma bounds_of_placed_update [simp]: "bounds_of (st\<lparr>placed := ps\<rparr>) = bounds_of st"
  by (simp add: bounds_of_def)

lemma in_bounds_bounds_of:
  "in_bounds st rc \<longleftrightarrow>
     newMinRow (bounds_of st) \<le> fst rc \<and> fst rc \<le> newMaxRow (bounds_of st) \<and>
     newMinCol (bounds_of st) \<le> snd rc \<and> snd rc \<le> newMaxCol (bounds_of st)"
  by (simp add: in_bounds_def bounds_of_def)

lemma grid_invD:
  assumes "grid_inv st"
  shows "distinct (map fst (grid st))"
    and "letter st rc \<noteq> None \<Longrightarrow> in_bounds st rc"
    and "p \<in> set (placed st) \<Longrightarrow> word_on_grid st p"
    and "p \<in> set (placed st) \<Longrightarrow> word_bounded st p"
    and "grid st = [] \<Longrightarrow> p \<in> set (placed st) \<Longrightarrow> p_answer p = []"
    and "grid st \<noteq> [] \<Longrightarrow> p \<in> set (placed st) \<Longrightarrow> p_answer p \<noteq> []"
  using assms unfolding grid_inv_def by blast+

lemma placeWordAt_inv:
  assumes inv: "grid_inv st" and pl: "placeWordAt index ans row col dir st = Inr st'"
    and len: "\<forall>p \<in> set (placed st). length ans \<le> length (p_answer p)"
  shows "grid_inv st'"
proof -
  define q where "q = \<lparr>p_index = index, p_row = row, p_col = col, p_dir = dir, p_answer = ans\<rparr>"
  define cs where "cs = word_cells dir row col 0 (length ans)"
  note P = placeWordAt_Inr[OF pl]
  have st': "st' = (placeWordAt_loop row col dir 0 ans st)\<lparr>placed := placed st @ [q]\<rparr>"
    using P(1) by (simp add: q_def)
  have placed': "placed st' = placed st @ [q]" by (simp add: st')
  have L1: "letter st' rc = letter st rc" if "rc \<notin> set cs" for rc
    using that by (simp add: st' cs_def letter_placeWordAt_loop_other)
  have L2: "letter st' (cell_at dir row col (int j)) = Some (ans ! j)" if "j < length ans" for j
    using letter_placeWordAt_loop_cell[OF that, of row col dir 0 st] by (simp add: st')
  have L3: "letter st' rc = Some e" if "letter st rc = Some e" for rc e
  proof (cases "rc \<in> set cs")
    case False
    with that show ?thesis by (simp add: L1)
  next
    case True
    then obtain j where j: "j < length ans" "rc = cell_at dir row col (int j)"
      by (auto simp: cs_def set_word_cells)
    with P(3) that have "e = ans ! j" by (auto simp: cell_ok_def)
    with j show ?thesis by (simp add: L2)
  qed
  have dom: "letter st' rc \<noteq> None \<longleftrightarrow> letter st rc \<noteq> None \<or> rc \<in> set cs" for rc
    unfolding st' cs_def letter_placed_update by (rule letter_placeWordAt_loop_dom)
  have b: "bounds_of st' = widened (bounds_of st) cs"
    by (simp add: st' cs_def bounds_of_placeWordAt_loop)
  have d: "distinct (map fst (grid st'))"
    using grid_invD(1)[OF inv] by (simp add: st' distinct_keys_placeWordAt_loop)
  have bnd: "in_bounds st' rc" if "letter st' rc \<noteq> None" for rc
  proof (cases "rc \<in> set cs")
    case True
    from widened_contains(5)[OF b True] show ?thesis by (simp add: in_bounds_bounds_of)
  next
    case False
    with that L1[of rc] have "letter st rc \<noteq> None" by simp
    then have "in_bounds st rc" by (rule grid_invD(2)[OF inv])
    with widened_contains(1-4)[OF b] show ?thesis by (simp add: in_bounds_bounds_of)
  qed
  have old: "word_on_grid st' p \<and> word_bounded st' p" if p: "p \<in> set (placed st)" for p
  proof
    from p have on: "word_on_grid st p" and wb: "word_bounded st p"
      by (rule grid_invD(3,4)[OF inv])+
    from on show on': "word_on_grid st' p"
      by (simp add: word_on_grid_def L3)
    show "word_bounded st' p"
      unfolding word_bounded_def
    proof (intro impI)
      assume ne: "p_answer p \<noteq> []"
      have "letter st' X = None"
        if X: "X = p_cell p (- 1) \<or> X = p_cell p (int (length (p_answer p)))" for X
      proof -
        from wb ne X have empty: "letter st X = None" by (auto simp: word_bounded_def)
        have "X \<notin> set cs"
        proof
          assume "X \<in> set cs"
          then obtain j where j: "j < length ans" "X = cell_at dir row col (int j)"
            by (auto simp: cs_def set_word_cells)
          from P(3) j have ok: "cell_ok st dir X (ans ! j)" by simp
          from len p have "length ans \<le> length (p_answer p)" by simp
          from no_overlap_end[OF on ne X j(2) j(1) this empty ok P(2)] show False .
        qed
        with empty show ?thesis by (simp add: L1)
      qed
      then show "letter st' (p_cell p (- 1)) = None \<and>
          letter st' (p_cell p (int (length (p_answer p)))) = None"
        by blast
    qed
  qed
  have new: "word_on_grid st' q \<and> word_bounded st' q"
  proof
    show "word_on_grid st' q"
      by (simp add: word_on_grid_def q_def p_cell_def L2)
    have "cell_at dir row col (- 1) \<notin> set cs" "cell_at dir row col (int (length ans)) \<notin> set cs"
      by (auto simp: cs_def set_word_cells)
    with P(2) show "word_bounded st' q"
      by (simp add: word_bounded_def q_def p_cell_def L1 end_touch_def)
  qed
  have emp: "p_answer p = []" if g: "grid st' = []" and p: "p \<in> set (placed st')" for p
  proof -
    from g have none: "letter st' rc = None" for rc by (simp add: letter_def)
    have a: "ans = []"
    proof (cases ans)
      case Nil then show ?thesis .
    next
      case (Cons c cs')
      then have "0 < length ans" by simp
      from L2[OF this] none show ?thesis by simp
    qed
    have "letter st rc = None" for rc
    proof (cases "letter st rc")
      case None then show ?thesis .
    next
      case (Some e)
      from L3[OF Some] none show ?thesis by simp
    qed
    then have "grid st = []" by (simp add: grid_empty_iff)
    with grid_invD(5)[OF inv] have "\<forall>p \<in> set (placed st). p_answer p = []" by blast
    with p a show ?thesis by (auto simp: placed' q_def)
  qed
  have nonemp: "p_answer p \<noteq> []" if g: "grid st' \<noteq> []" and p: "p \<in> set (placed st')" for p
  proof (cases "grid st = []")
    case False
    from P(4)[OF False] have "ans \<noteq> []" by auto
    with grid_invD(6)[OF inv False] p show ?thesis by (auto simp: placed' q_def)
  next
    case True
    have "ans \<noteq> []"
    proof
      assume "ans = []"
      with True have "grid st' = []" by (simp add: st')
      with g show False by simp
    qed
    moreover have "placed st = []"
    proof (cases "placed st")
      case Nil then show ?thesis .
    next
      case (Cons p0 ps)
      then have p0: "p0 \<in> set (placed st)" by simp
      from grid_invD(5)[OF inv True p0] len p0 have "ans = []" by auto
      with \<open>ans \<noteq> []\<close> show ?thesis by simp
    qed
    ultimately show ?thesis using p by (simp add: placed' q_def)
  qed
  show ?thesis
    unfolding grid_inv_def
    using d bnd old new emp nonemp by (auto simp: placed')
qed

lemma try_candidate_state: "snd (try_candidate ans row col dir acc) = snd acc"
proof -
  obtain best st where acc: "acc = (best, st)" by (cases acc)
  obtain chk st1 where c: "canPlace ans row col dir st = (chk, st1)"
    by (cases "canPlace ans row col dir st")
  with canPlace_state[of ans row col dir st] have "st1 = st" by simp
  with acc c show ?thesis
    by (simp add: try_candidate_def split: option.splits)
qed

lemma bestPlacement_cells_state: "snd (bestPlacement_cells ans i ch cs acc) = snd acc"
  by (induction ans i ch cs acc rule: bestPlacement_cells.induct)
    (simp_all add: try_candidate_state)

lemma bestPlacement_loop_state: "snd (bestPlacement_loop ans cs i rest acc) = snd acc"
  by (induction rest arbitrary: i acc) (simp_all add: bestPlacement_cells_state)

lemma bestPlacement_state: "snd (bestPlacement ans st) = st"
  by (simp add: bestPlacement_def Let_def bestPlacement_loop_state)

lemma buildGrid_loop_Cons:
  assumes "buildGrid_loop entries (item # rest) st = Inr st'"
  shows "\<exists>r c d st2. placeWordAt (fst item) (answer (entries ! fst item)) r c d st = Inr st2 \<and>
           buildGrid_loop entries rest st2 = Inr st'"
proof -
  obtain best st1 where b: "bestPlacement (answer (entries ! fst item)) st = (best, st1)"
    by (cases "bestPlacement (answer (entries ! fst item)) st")
  with bestPlacement_state[of "answer (entries ! fst item)" st] have st1: "st1 = st" by simp
  from assms show ?thesis
    by (cases best) (auto simp: b st1 Let_def split: sum.splits)
qed

lemma buildGrid_loop_inv:
  assumes "buildGrid_loop entries rest st = Inr st'" and "grid_inv st"
    and "\<forall>p \<in> set (placed st). \<forall>it \<in> set rest.
           length (answer (entries ! fst it)) \<le> length (p_answer p)"
    and "longer_first entries rest"
  shows "grid_inv st' \<and>
         (\<exists>ps. placed st' = placed st @ ps \<and> map p_index ps = map fst rest \<and>
               (\<forall>p \<in> set ps. p_answer p = answer (entries ! p_index p)))"
  using assms
proof (induction rest arbitrary: st)
  case Nil
  then show ?case by simp
next
  case (Cons item rest)
  from buildGrid_loop_Cons[OF Cons.prems(1)] obtain r c d st2 where
    pl: "placeWordAt (fst item) (answer (entries ! fst item)) r c d st = Inr st2"
    and rec: "buildGrid_loop entries rest st2 = Inr st'"
    by blast
  from Cons.prems(3) have len: "\<forall>p \<in> set (placed st).
      length (answer (entries ! fst item)) \<le> length (p_answer p)"
    by simp
  have inv2: "grid_inv st2" by (rule placeWordAt_inv[OF Cons.prems(2) pl len])
  have placed2: "placed st2 = placed st @
      [\<lparr>p_index = fst item, p_row = r, p_col = c, p_dir = d,
        p_answer = answer (entries ! fst item)\<rparr>]"
    using placeWordAt_Inr(1)[OF pl] by simp
  from Cons.prems(3,4) have len2: "\<forall>p \<in> set (placed st2). \<forall>it \<in> set rest.
           length (answer (entries ! fst it)) \<le> length (p_answer p)"
    by (auto simp: placed2 longer_first_def)
  from Cons.prems(4) have lf: "longer_first entries rest" by (simp add: longer_first_def)
  from Cons.IH[OF rec inv2 len2 lf] obtain ps where
    "grid_inv st'" and ps: "placed st' = placed st2 @ ps" "map p_index ps = map fst rest"
      "\<forall>p \<in> set ps. p_answer p = answer (entries ! p_index p)"
    by blast
  then show ?case
    by (auto simp: placed2)
qed

lemma order_of_item:
  "item \<in> set (order_of entries) \<Longrightarrow>
     fst item < length entries \<and> snd item = length (answer (entries ! fst item))"
  by (auto simp: order_of_def items_of_def)

lemma order_of_indices:
  "distinct (map fst (order_of entries))"
  "set (map fst (order_of entries)) = {0..<length entries}"
proof -
  let ?g = "\<lambda>idx. (idx, length (answer (entries ! idx)))"
  let ?xs = "map ?g [0..<length entries]"
  have s: "set (order_of entries) = set ?xs" by (simp add: order_of_def items_of_def)
  have d: "distinct (order_of entries)"
    by (simp add: order_of_def items_of_def distinct_map inj_on_def)
  have i: "inj_on fst (set ?xs)" by (auto simp: inj_on_def)
  from d i s show "distinct (map fst (order_of entries))"
    by (simp add: distinct_map)
  have "fst ` set ?xs = {0..<length entries}" by (auto simp: image_iff)
  with s show "set (map fst (order_of entries)) = {0..<length entries}"
    by simp
qed

lemma order_of_longer_first: "longer_first entries (order_of entries)"
proof -
  have "sorted (map (\<lambda>item. - int (snd item)) (order_of entries))"
    unfolding order_of_def by (rule sorted_sort_key)
  then have "sorted_wrt (\<lambda>a b. - int (snd a) \<le> - int (snd b)) (order_of entries)"
    by (simp add: sorted_map)
  then show ?thesis
    unfolding longer_first_def
    by (rule sorted_wrt_mono_rel[rotated]) (auto dest!: order_of_item)
qed

lemma grid_inv_init: "grid_inv init_state"
  by (simp add: grid_inv_def init_state_def letter_def)

lemma buildGrid_props:
  assumes "buildGrid entries = Inr gi"
  shows "grid_inv gi"
    and "map p_index (placed gi) = map fst (order_of entries)"
    and "\<forall>p \<in> set (placed gi). p_answer p = answer (entries ! p_index p)"
proof -
  from assms obtain first rest st1 where
    o: "order_of entries = first # rest"
    and pl: "placeWordAt (fst first) (answer (entries ! fst first)) 0 0 Across init_state = Inr st1"
    and loop: "buildGrid_loop entries rest st1 = Inr gi"
    by (auto simp: buildGrid_def place_in_order_def split: list.splits sum.splits)
  have inv1: "grid_inv st1"
    by (rule placeWordAt_inv[OF grid_inv_init pl]) (simp add: init_state_def)
  have placed1: "placed st1 =
      [\<lparr>p_index = fst first, p_row = 0, p_col = 0, p_dir = Across,
        p_answer = answer (entries ! fst first)\<rparr>]"
    using placeWordAt_Inr(1)[OF pl] by (simp add: init_state_def)
  from order_of_longer_first[of entries] have lf: "longer_first entries (first # rest)"
    by (simp add: o)
  then have len: "\<forall>p \<in> set (placed st1). \<forall>it \<in> set rest.
           length (answer (entries ! fst it)) \<le> length (p_answer p)"
    by (simp add: placed1 longer_first_def)
  from lf have lf': "longer_first entries rest" by (simp add: longer_first_def)
  from buildGrid_loop_inv[OF loop inv1 len lf'] obtain ps where
    r: "grid_inv gi" "placed gi = placed st1 @ ps" "map p_index ps = map fst rest"
      "\<forall>p \<in> set ps. p_answer p = answer (entries ! p_index p)"
    by blast
  from r show "grid_inv gi" by simp
  from r show "map p_index (placed gi) = map fst (order_of entries)"
    by (simp add: placed1 o)
  from r show "\<forall>p \<in> set (placed gi). p_answer p = answer (entries ! p_index p)"
    by (auto simp: placed1)
qed

lemma buildGrid_indices:
  assumes "buildGrid entries = Inr gi"
  shows "distinct (map p_index (placed gi))"
    and "p_index ` set (placed gi) = {0..<length entries}"
  using buildGrid_props(2)[OF assms] order_of_indices[of entries]
  by (simp_all flip: set_map)

section \<open>The index of placements and takeRun\<close>

lemma fold_letterAt:
  "distinct (map fst g) \<Longrightarrow>
     fold (\<lambda>((r, c), ch) m. m((r - mr, c - mc) \<mapsto> ch)) g m0 (r, c) =
       (case map_of g (r + mr, c + mc) of Some ch \<Rightarrow> Some ch | None \<Rightarrow> m0 (r, c))"
  for g :: sparse_grid and mr mc :: int
proof (induction g arbitrary: m0)
  case Nil
  then show ?case by simp
next
  case (Cons kv g)
  obtain r' c' ch where kv: "kv = ((r', c'), ch)" by (cases kv) auto
  from Cons.prems have d: "distinct (map fst g)" and n: "(r', c') \<notin> fst ` set g"
    by (simp_all add: kv)
  from n have none: "map_of g (r', c') = None" by (simp add: map_of_eq_None_iff)
  let ?F = "\<lambda>((r, c), ch) m. m((r - mr, c - mc) \<mapsto> ch)"
  have "fold ?F (kv # g) m0 (r, c) = fold ?F g (m0((r' - mr, c' - mc) \<mapsto> ch)) (r, c)"
    by (simp add: kv)
  also have "\<dots> = (case map_of g (r + mr, c + mc) of Some x \<Rightarrow> Some x
                   | None \<Rightarrow> (m0((r' - mr, c' - mc) \<mapsto> ch)) (r, c))"
    by (rule Cons.IH[OF d])
  also have "\<dots> = (case map_of (kv # g) (r + mr, c + mc) of Some x \<Rightarrow> Some x
                   | None \<Rightarrow> m0 (r, c))"
  proof (cases "(r', c') = (r + mr, c + mc)")
    case True
    then have "r' - mr = r" "c' - mc = c" by auto
    with none True show ?thesis by (simp add: kv)
  next
    case False
    then have "(r' - mr, c' - mc) \<noteq> (r, c)" by auto
    with False show ?thesis by (auto simp: kv split: option.splits)
  qed
  finally show ?case .
qed

lemma letterAt_info_eq:
  "grid_inv gi \<Longrightarrow> letterAt_info gi (r, c) = letter gi (r + minRow gi, c + minCol gi)"
  by (simp add: letterAt_info_def letterAt_of_def fold_letterAt grid_invD(1) letter_def
      split: option.splits)

lemma hasLetter_info:
  "grid_inv gi \<Longrightarrow>
     hasLetter (letterAt_info gi) r c \<longleftrightarrow> letter gi (r + minRow gi, c + minCol gi) \<noteq> None"
  by (simp add: hasLetter_def letterAt_info_eq)

lemma index_placements_step:
  "index_placements entries mr mc (p # ps) m =
     (if m (start_rel mr mc p) \<noteq> None then Inl (DuplicateStart (start_rel mr mc p))
      else index_placements entries mr mc ps (m(start_rel mr mc p \<mapsto> entry_of entries p)))"
  by (simp add: start_rel_def entry_of_def Let_def)

declare index_placements.simps(2) [simp del]

lemma index_placements_Inl:
  "index_placements entries mr mc ps m = Inl e \<Longrightarrow> \<exists>k. e = DuplicateStart k"
  by (induction ps arbitrary: m)
    (auto simp: index_placements_step simp del: split_paired_Ex split_paired_All split: if_splits)

lemma index_placements_Inr:
  "index_placements entries mr mc ps m0 = Inr m \<Longrightarrow>
     distinct (map (start_rel mr mc) ps) \<and>
     (\<forall>p \<in> set ps. m0 (start_rel mr mc p) = None \<and> m (start_rel mr mc p) = Some (entry_of entries p)) \<and>
     (\<forall>k. k \<notin> start_rel mr mc ` set ps \<longrightarrow> m k = m0 k)"
proof (induction ps arbitrary: m0)
  case Nil
  then show ?case by simp
next
  case (Cons p ps)
  let ?k = "start_rel mr mc p"
  from Cons.prems have free: "m0 ?k = None"
    and rec: "index_placements entries mr mc ps (m0(?k \<mapsto> entry_of entries p)) = Inr m"
    by (simp_all add: index_placements_step del: split_paired_Ex split_paired_All
        split: if_splits)
  note IH = Cons.IH[OF rec]
  from IH have notin: "?k \<notin> start_rel mr mc ` set ps"
    by (auto split: if_splits)
  with IH have mk: "m ?k = Some (entry_of entries p)"
    by (simp del: split_paired_Ex split_paired_All)
  have other: "m k = m0 k" if "k \<notin> start_rel mr mc ` set (p # ps)" for k
  proof -
    from that have "k \<notin> start_rel mr mc ` set ps" "k \<noteq> ?k" by auto
    with IH show ?thesis by (simp del: split_paired_Ex split_paired_All)
  qed
  have each: "m0 (start_rel mr mc p') = None \<and> m (start_rel mr mc p') = Some (entry_of entries p')"
    if "p' \<in> set ps" for p'
  proof -
    from IH that have a: "(m0(?k \<mapsto> entry_of entries p)) (start_rel mr mc p') = None"
      and b: "m (start_rel mr mc p') = Some (entry_of entries p')" by blast+
    from a b show ?thesis by (simp split: if_splits)
  qed
  from IH have "distinct (map (start_rel mr mc) ps)" by blast
  with notin free mk other each show ?case
    by (simp del: split_paired_Ex split_paired_All)
qed

lemma index_placements_dup:
  "\<not> distinct (map (start_rel mr mc) ps) \<Longrightarrow>
     \<exists>k. index_placements entries mr mc ps m = Inl (DuplicateStart k)"
proof (cases "index_placements entries mr mc ps m")
  case (Inl e)
  then show ?thesis using index_placements_Inl[OF Inl] by simp
next
  case (Inr m')
  assume "\<not> distinct (map (start_rel mr mc) ps)"
  with index_placements_Inr[OF Inr] show ?thesis by simp
qed

lemma startToEntry_lookup:
  assumes "startToEntry_info entries gi = Inr sm"
  shows "distinct (map (start_rel (minRow gi) (minCol gi)) (placed gi))"
    and "p \<in> set (placed gi) \<Longrightarrow> sm (start_rel (minRow gi) (minCol gi) p) = Some (entry_of entries p)"
    and "sm k = Some v \<Longrightarrow> \<exists>p \<in> set (placed gi). k = start_rel (minRow gi) (minCol gi) p \<and> v = entry_of entries p"
proof -
  note I = index_placements_Inr[OF assms[unfolded startToEntry_info_def]]
  from I show "distinct (map (start_rel (minRow gi) (minCol gi)) (placed gi))" by simp
  from I show "p \<in> set (placed gi) \<Longrightarrow> sm (start_rel (minRow gi) (minCol gi) p) = Some (entry_of entries p)"
    by simp
  show "\<exists>p \<in> set (placed gi). k = start_rel (minRow gi) (minCol gi) p \<and> v = entry_of entries p"
    if "sm k = Some v"
  proof (cases "k \<in> start_rel (minRow gi) (minCol gi) ` set (placed gi)")
    case True
    then obtain p where "p \<in> set (placed gi)" "k = start_rel (minRow gi) (minCol gi) p" by auto
    with I that show ?thesis by auto
  next
    case False
    with I have "sm k = None" by (simp del: split_paired_Ex split_paired_All)
    with that show ?thesis by simp
  qed
qed

lemma takeRun_exact:
  assumes "\<forall>j<n. in_matrix nrows ncols (cell_at dir r c (i + int j)) \<and>
                 la (cell_at dir r c (i + int j)) \<noteq> None"
    and "la (cell_at dir r c (i + int n)) = None"
  shows "takeRun la nrows ncols (cell_r dir r i) (cell_c dir c i) dir = word_cells dir r c i n"
  using assms
proof (induction n arbitrary: i)
  case 0
  then show ?case
    by (subst takeRun.simps) (simp add: hasLetter_def cell_at_def)
next
  case (Suc n)
  from Suc.prems(1) have h: "in_matrix nrows ncols (cell_at dir r c i)" "la (cell_at dir r c i) \<noteq> None"
    by (metis add.right_neutral of_nat_0 zero_less_Suc)+
  have rest: "\<forall>j<n. in_matrix nrows ncols (cell_at dir r c (i + 1 + int j)) \<and>
                 la (cell_at dir r c (i + 1 + int j)) \<noteq> None"
  proof (intro allI impI)
    fix j assume "j < n"
    then have "Suc j < Suc n" by simp
    moreover have "i + int (Suc j) = i + 1 + int j" by simp
    ultimately show
      "in_matrix nrows ncols (cell_at dir r c (i + 1 + int j)) \<and>
                 la (cell_at dir r c (i + 1 + int j)) \<noteq> None"
      using Suc.prems(1) by metis
  qed
  have "i + int (Suc n) = i + 1 + int n" by simp
  with Suc.prems(2) have last: "la (cell_at dir r c (i + 1 + int n)) = None"
    by metis
  have nxt: "(if dir = Across
        then takeRun la nrows ncols (cell_r dir r i) (cell_c dir c i + 1) dir
        else takeRun la nrows ncols (cell_r dir r i + 1) (cell_c dir c i) dir) =
      takeRun la nrows ncols (cell_r dir r (i + 1)) (cell_c dir c (i + 1)) dir"
    by (simp add: cell_r_def cell_c_def add.assoc)
  show ?case
    apply (subst takeRun.simps)
    apply (simp only: nxt Suc.IH[OF rest last] word_cells_Suc)
    using h by (simp add: in_matrix_def hasLetter_def cell_at_def)
qed

section \<open>The scan of buildJson\<close>

lemma used_at_Nil [simp]: "used_at sm la [] = {}"
  by (simp add: used_at_def)

lemma used_at_append: "used_at sm la (xs @ ys) = used_at sm la xs \<union> used_at sm la ys"
  by (auto simp: used_at_def)

lemma scan_rel_refl: "scan_rel sm la nrows ncols [] s s"
  by (simp add: scan_rel_def)

lemma scan_rel_trans:
  assumes "scan_rel sm la nrows ncols xs s s1" and "scan_rel sm la nrows ncols ys s1 s2"
  shows "scan_rel sm la nrows ncols (xs @ ys) s s2"
proof -
  from assms obtain as1 as2 ds1 ds2 where
    a: "acrossClues s1 = acrossClues s @ as1" "acrossClues s2 = acrossClues s1 @ as2"
       "list_all2 (clue_at sm la nrows ncols Across) as1 (filter (is_start la Across) xs)"
       "list_all2 (clue_at sm la nrows ncols Across) as2 (filter (is_start la Across) ys)"
    and d: "downClues s1 = downClues s @ ds1" "downClues s2 = downClues s1 @ ds2"
       "list_all2 (clue_at sm la nrows ncols Down) ds1 (filter (is_start la Down) xs)"
       "list_all2 (clue_at sm la nrows ncols Down) ds2 (filter (is_start la Down) ys)"
    unfolding scan_rel_def by blast
  from a have A: "acrossClues s2 = acrossClues s @ (as1 @ as2) \<and>
      list_all2 (clue_at sm la nrows ncols Across) (as1 @ as2) (filter (is_start la Across) (xs @ ys))"
    by (simp add: list_all2_appendI)
  from d have D: "downClues s2 = downClues s @ (ds1 @ ds2) \<and>
      list_all2 (clue_at sm la nrows ncols Down) (ds1 @ ds2) (filter (is_start la Down) (xs @ ys))"
    by (simp add: list_all2_appendI)
  from assms have u: "set (usedEntries s1) = set (usedEntries s) \<union> used_at sm la xs"
    "set (usedEntries s2) = set (usedEntries s1) \<union> used_at sm la ys"
    and di: "distinct (usedEntries s) \<longrightarrow> distinct (usedEntries s1)"
    "distinct (usedEntries s1) \<longrightarrow> distinct (usedEntries s2)"
    and so: "map (map solution) (gridJson s1) = map (map solution) (gridJson s)"
    "map (map solution) (gridJson s2) = map (map solution) (gridJson s1)"
    unfolding scan_rel_def by simp_all
  have rest: "set (usedEntries s2) = set (usedEntries s) \<union> used_at sm la (xs @ ys)"
    "distinct (usedEntries s) \<longrightarrow> distinct (usedEntries s2)"
    "map (map solution) (gridJson s2) = map (map solution) (gridJson s)"
    using u di so by (simp_all add: used_at_append Un_assoc)
  show ?thesis
    unfolding scan_rel_def
  proof (intro conjI)
    from A show "\<exists>as. acrossClues s2 = acrossClues s @ as \<and>
      list_all2 (clue_at sm la nrows ncols Across) as (filter (is_start la Across) (xs @ ys))"
      by (rule exI)
    from D show "\<exists>ds. downClues s2 = downClues s @ ds \<and>
      list_all2 (clue_at sm la nrows ncols Down) ds (filter (is_start la Down) (xs @ ys))"
      by (rule exI)
  qed (use rest in blast)+
qed

lemma solution_set_number:
  "map (map solution) (set_number gj r c num) = map (map solution) gj"
proof -
  have same: "(map f xs)[i := f (xs ! i)] = map f xs" for f :: "'a \<Rightarrow> 'b" and xs i
    by (cases "i < length xs") (simp_all add: list_update_same_conv list_update_beyond)
  have row: "map solution ((gj ! nat r)[nat c := (gj ! nat r ! nat c)\<lparr>cell_number := Some num\<rparr>]) =
      map solution (gj ! nat r)"
    by (simp add: map_update same)
  have "map (map solution) (set_number gj r c num) =
      (map (map solution) gj)[nat r := map solution (gj ! nat r)]"
    by (simp add: set_number_def map_update same)
  also have "\<dots> = map (map solution) gj" by (rule same)
  finally show ?thesis .
qed

lemma assignNumber_frame:
  assumes "assignNumber r c s = (num, s1)"
  shows "acrossClues s1 = acrossClues s" "downClues s1 = downClues s"
    "usedEntries s1 = usedEntries s"
    "map (map solution) (gridJson s1) = map (map solution) (gridJson s)"
  using assms
  by (auto simp: assignNumber_def Let_def solution_set_number split: option.splits)

section \<open>The scan, cell by cell\<close>

lemma emit_clue_Inr:
  assumes "emit_clue sm la nrows ncols dir r c num s = Inr s'"
  shows "\<exists>idx e cl. sm (r, c, dir) = Some (idx, Some e) \<and> clue_at sm la nrows ncols dir cl (r, c) \<and>
           set (usedEntries s') = insert idx (set (usedEntries s)) \<and>
           (distinct (usedEntries s) \<longrightarrow> distinct (usedEntries s')) \<and>
           gridJson s' = gridJson s \<and>
           acrossClues s' = acrossClues s @ (if dir = Across then [cl] else []) \<and>
           downClues s' = downClues s @ (if dir = Across then [] else [cl])"
proof -
  have "\<exists>idx e. sm (r, c, dir) = Some (idx, Some e)"
  proof (cases "sm (r, c, dir)")
    case None
    with assms show ?thesis by (simp add: emit_clue_def)
  next
    case (Some v)
    obtain idx eo where v: "v = (idx, eo)" by (cases v)
    show ?thesis
    proof (cases eo)
      case None
      with assms Some v show ?thesis by (simp add: emit_clue_def)
    next
      case (Some e)
      with \<open>sm (r, c, dir) = Some v\<close> v show ?thesis by simp
    qed
  qed
  then obtain idx e where m: "sm (r, c, dir) = Some (idx, Some e)" by blast
  define cl where "cl = \<lparr>number = num, clue_text = clue e, cells = takeRun la nrows ncols r c dir\<rparr>"
  have "clue_at sm la nrows ncols dir cl (r, c)"
    by (simp add: clue_at_def cl_def m)
  moreover from assms m have
    "s' = (if dir = Across
           then s\<lparr>usedEntries := (if idx \<in> set (usedEntries s) then usedEntries s
                                   else usedEntries s @ [idx]),
                  acrossClues := acrossClues s @ [cl]\<rparr>
           else s\<lparr>usedEntries := (if idx \<in> set (usedEntries s) then usedEntries s
                                   else usedEntries s @ [idx]),
                  downClues := downClues s @ [cl]\<rparr>)"
    by (auto simp: emit_clue_def Let_def cl_def)
  ultimately have "sm (r, c, dir) = Some (idx, Some e) \<and> clue_at sm la nrows ncols dir cl (r, c) \<and>
           set (usedEntries s') = insert idx (set (usedEntries s)) \<and>
           (distinct (usedEntries s) \<longrightarrow> distinct (usedEntries s')) \<and>
           gridJson s' = gridJson s \<and>
           acrossClues s' = acrossClues s @ (if dir = Across then [cl] else []) \<and>
           downClues s' = downClues s @ (if dir = Across then [] else [cl])"
    using m by auto
  then show ?thesis by blast
qed

lemma used_at_single: "used_at sm la [rc] = used_one sm la Across rc \<union> used_one sm la Down rc"
proof -
  have "(\<exists>dir. P dir) \<longleftrightarrow> P Across \<or> P Down" for P
    by (metis direction.exhaust)
  then show ?thesis
    by (auto simp: used_at_def used_one_def)
qed

lemma emit_step:
  assumes "(if is_start la dir (r, c) then emit_clue sm la nrows ncols dir r c num s else Inr s) = Inr s'"
  shows "\<exists>cs. (if dir = Across then acrossClues s' = acrossClues s @ cs \<and> downClues s' = downClues s
               else downClues s' = downClues s @ cs \<and> acrossClues s' = acrossClues s) \<and>
              list_all2 (clue_at sm la nrows ncols dir) cs (filter (is_start la dir) [(r, c)]) \<and>
              set (usedEntries s') = set (usedEntries s) \<union> used_one sm la dir (r, c) \<and>
              (distinct (usedEntries s) \<longrightarrow> distinct (usedEntries s')) \<and>
              gridJson s' = gridJson s"
proof (cases "is_start la dir (r, c)")
  case False
  with assms have "s' = s" by simp
  with False show ?thesis
    by (intro exI[of _ "[]"]) (simp add: used_one_def)
next
  case True
  with assms have "emit_clue sm la nrows ncols dir r c num s = Inr s'" by simp
  from emit_clue_Inr[OF this] obtain idx e cl where
    m: "sm (r, c, dir) = Some (idx, Some e)" and cl: "clue_at sm la nrows ncols dir cl (r, c)"
    and u: "set (usedEntries s') = insert idx (set (usedEntries s))"
    and d: "distinct (usedEntries s) \<longrightarrow> distinct (usedEntries s')"
    and g: "gridJson s' = gridJson s"
    and a: "acrossClues s' = acrossClues s @ (if dir = Across then [cl] else [])"
    and dn: "downClues s' = downClues s @ (if dir = Across then [] else [cl])"
    by blast
  from m True have uo: "used_one sm la dir (r, c) = {idx}"
    by (auto simp: used_one_def)
  from True cl u d g a dn uo show ?thesis
    by (intro exI[of _ "[cl]"]) simp
qed

lemma scan_cell_rel:
  assumes "scan_cell sm la nrows ncols rc s = Inr s'"
  shows "scan_rel sm la nrows ncols [rc] s s'"
proof -
  obtain r c where rc: "rc = (r, c)" by (cases rc)
  show ?thesis
  proof (cases "hasLetter la r c \<and> (startsAcross la r c \<or> startsDown la r c)")
    case False
    with assms have "s' = s" by (auto simp: scan_cell_def rc split: if_splits)
    moreover from False have "\<not> is_start la Across rc" "\<not> is_start la Down rc"
      by (auto simp: is_start_def rc)
    ultimately show ?thesis
      by (simp add: scan_rel_def used_at_single used_one_def)
  next
    case True
    obtain num s1 where an: "assignNumber r c s = (num, s1)" by (cases "assignNumber r c s")
    note fr = assignNumber_frame[OF an]
    from True have A: "is_start la Across (r, c) = startsAcross la r c"
      and D: "is_start la Down (r, c) = startsDown la r c"
      by (simp_all add: is_start_def)
    from assms True obtain s2 where
      e1: "(if is_start la Across (r, c) then emit_clue sm la nrows ncols Across r c num s1
            else Inr s1) = Inr s2"
      and e2: "(if is_start la Down (r, c) then emit_clue sm la nrows ncols Down r c num s2
            else Inr s2) = Inr s'"
      by (auto simp: scan_cell_def rc an A D split: sum.splits if_splits)
    from emit_step[OF e1] obtain as where
      a1: "acrossClues s2 = acrossClues s1 @ as" "downClues s2 = downClues s1"
      "list_all2 (clue_at sm la nrows ncols Across) as (filter (is_start la Across) [(r, c)])"
      "set (usedEntries s2) = set (usedEntries s1) \<union> used_one sm la Across (r, c)"
      "distinct (usedEntries s1) \<longrightarrow> distinct (usedEntries s2)"
      "gridJson s2 = gridJson s1"
      by auto
    from emit_step[OF e2] obtain ds where
      a2: "downClues s' = downClues s2 @ ds" "acrossClues s' = acrossClues s2"
      "list_all2 (clue_at sm la nrows ncols Down) ds (filter (is_start la Down) [(r, c)])"
      "set (usedEntries s') = set (usedEntries s2) \<union> used_one sm la Down (r, c)"
      "distinct (usedEntries s2) \<longrightarrow> distinct (usedEntries s')"
      "gridJson s' = gridJson s2"
      by auto
    show ?thesis
      unfolding scan_rel_def rc
    proof (intro conjI)
      from a1 a2 fr show "\<exists>as. acrossClues s' = acrossClues s @ as \<and>
          list_all2 (clue_at sm la nrows ncols Across) as (filter (is_start la Across) [(r, c)])"
        by (intro exI[of _ as]) simp
      from a1 a2 fr show "\<exists>ds. downClues s' = downClues s @ ds \<and>
          list_all2 (clue_at sm la nrows ncols Down) ds (filter (is_start la Down) [(r, c)])"
        by (intro exI[of _ ds]) simp
      from a1 a2 fr show "set (usedEntries s') = set (usedEntries s) \<union> used_at sm la [(r, c)]"
        by (simp add: used_at_single Un_assoc)
      from a1 a2 fr show "distinct (usedEntries s) \<longrightarrow> distinct (usedEntries s')" by simp
      from a1 a2 fr show "map (map solution) (gridJson s') = map (map solution) (gridJson s)"
        by simp
    qed
  qed
qed

lemma scan_cells_rel:
  "scan_cells sm la nrows ncols rcs s = Inr s' \<Longrightarrow> scan_rel sm la nrows ncols rcs s s'"
proof (induction rcs arbitrary: s)
  case Nil
  then show ?case by (simp add: scan_rel_refl)
next
  case (Cons rc rcs)
  from Cons.prems obtain s1 where
    c: "scan_cell sm la nrows ncols rc s = Inr s1" and r: "scan_cells sm la nrows ncols rcs s1 = Inr s'"
    by (auto split: sum.splits)
  from scan_rel_trans[OF scan_cell_rel[OF c] Cons.IH[OF r]] show ?case by simp
qed

section \<open>Placements, starts and used entries\<close>

lemma emit_clues_Inr:
  assumes "emit_clues entries gi = Inr s"
  shows "\<exists>sm. startToEntry_info entries gi = Inr sm \<and>
           scan_rel sm (letterAt_info gi) (rows_info gi) (cols_info gi)
             (scan_order (rows_info gi) (cols_info gi)) (scan_start gi) s"
proof -
  from assms obtain sm where sm: "startToEntry_info entries gi = Inr sm"
    and sc: "scan_cells sm (letterAt_info gi) (rows_info gi) (cols_info gi)
               (scan_order (rows_info gi) (cols_info gi)) (scan_start gi) = Inr s"
    by (auto simp: emit_clues_def Let_def scan_start_def split: sum.splits)
  from scan_cells_rel[OF sc] sm show ?thesis by blast
qed

lemma emit_clues_facts:
  assumes "emit_clues entries gi = Inr s"
  obtains sm where "startToEntry_info entries gi = Inr sm"
    and "list_all2 (clue_at sm (letterAt_info gi) (rows_info gi) (cols_info gi) Across)
           (acrossClues s)
           (filter (is_start (letterAt_info gi) Across) (scan_order (rows_info gi) (cols_info gi)))"
    and "list_all2 (clue_at sm (letterAt_info gi) (rows_info gi) (cols_info gi) Down)
           (downClues s)
           (filter (is_start (letterAt_info gi) Down) (scan_order (rows_info gi) (cols_info gi)))"
    and "set (usedEntries s) =
           used_at sm (letterAt_info gi) (scan_order (rows_info gi) (cols_info gi))"
    and "distinct (usedEntries s)"
    and "map (map solution) (gridJson s) =
           map (map solution)
             (make_gridJson (letterAt_info gi) (rows_info gi) (cols_info gi))"
proof -
  from emit_clues_Inr[OF assms] obtain sm where
    sm: "startToEntry_info entries gi = Inr sm"
    and r: "scan_rel sm (letterAt_info gi) (rows_info gi) (cols_info gi)
             (scan_order (rows_info gi) (cols_info gi)) (scan_start gi) s"
    by blast
  from r show ?thesis
    by (intro that[OF sm]) (auto simp: scan_rel_def scan_start_def)
qed

lemma start_rel_distinct:
  "distinct (map (start_rel mr mc) ps) \<longleftrightarrow> distinct (map start_of ps)"
proof -
  have "start_rel mr mc p = start_rel mr mc q \<longleftrightarrow> start_of p = start_of q" for p q
    by (auto simp: start_rel_def start_of_def)
  then have "inj_on (start_rel mr mc) (set ps) \<longleftrightarrow> inj_on start_of (set ps)"
    by (simp add: inj_on_def)
  then show ?thesis by (simp add: distinct_map)
qed

lemma buildJson_duplicate:
  assumes "\<not> distinct (map start_of (placed gi))"
  shows "\<exists>k. buildJson entries gi = Inl (DuplicateStart k)"
proof -
  from assms have "\<not> distinct (map (start_rel (minRow gi) (minCol gi)) (placed gi))"
    by (simp add: start_rel_distinct)
  from index_placements_dup[OF this] obtain k where
    "startToEntry_info entries gi = Inl (DuplicateStart k)"
    unfolding startToEntry_info_def by blast
  then have "buildJson entries gi = Inl (DuplicateStart k)"
    by (simp add: buildJson_def emit_clues_def Let_def)
  then show ?thesis by blast
qed

lemma p_cell_start:
  "start_of p = start_of q \<Longrightarrow> p_cell p i = p_cell q i"
  by (simp add: start_of_def p_cell_def)

lemma word_nonempty_grid:
  assumes "word_on_grid st p" "p_answer p \<noteq> []"
  shows "grid st \<noteq> []"
proof -
  from assms(2) have "0 < int (length (p_answer p))" by simp
  from word_letter[OF assms(1) _ this] show ?thesis
    by (auto simp: letter_def)
qed

lemma same_start_le:
  assumes inv: "grid_inv st" and p: "p \<in> set (placed st)" and q: "q \<in> set (placed st)"
    and s: "start_of p = start_of q"
  shows "length (p_answer q) \<le> length (p_answer p)"
proof (rule ccontr)
  assume "\<not> length (p_answer q) \<le> length (p_answer p)"
  then have lt: "length (p_answer p) < length (p_answer q)" by simp
  then have qne: "p_answer q \<noteq> []" by auto
  note onq = grid_invD(3)[OF inv q]
  from word_nonempty_grid[OF onq qne] have g: "grid st \<noteq> []" .
  from grid_invD(6)[OF inv g p] have pne: "p_answer p \<noteq> []" .
  with grid_invD(4)[OF inv p] have "letter st (p_cell p (int (length (p_answer p)))) = None"
    by (simp add: word_bounded_def)
  moreover from word_letter[OF onq, of "int (length (p_answer p))"] lt
  have "letter st (p_cell q (int (length (p_answer p)))) \<noteq> None" by simp
  ultimately show False by (simp add: p_cell_start[OF s])
qed

lemma same_start_same_answer:
  assumes inv: "grid_inv st" and p: "p \<in> set (placed st)" and q: "q \<in> set (placed st)"
    and s: "start_of p = start_of q"
  shows "p_answer p = p_answer q"
proof (rule nth_equalityI)
  from same_start_le[OF inv p q s] same_start_le[OF inv q p s[symmetric]]
  show len: "length (p_answer p) = length (p_answer q)" by simp
  fix j assume j: "j < length (p_answer p)"
  from grid_invD(3)[OF inv p] j have "letter st (p_cell p (int j)) = Some (p_answer p ! j)"
    by (simp add: word_on_grid_def)
  moreover from grid_invD(3)[OF inv q] j len
  have "letter st (p_cell q (int j)) = Some (p_answer q ! j)"
    by (simp add: word_on_grid_def)
  ultimately show "p_answer p ! j = p_answer q ! j"
    by (simp add: p_cell_start[OF s])
qed

lemma buildGrid_distinct_starts:
  assumes b: "buildGrid entries = Inr gi" and d: "distinct (map answer entries)"
  shows "distinct (map start_of (placed gi))"
proof -
  note inv = buildGrid_props(1)[OF b]
  note idx = buildGrid_indices[OF b]
  have dp: "distinct (placed gi)" using idx(1) by (simp add: distinct_map)
  have "inj_on start_of (set (placed gi))"
  proof (rule inj_onI)
    fix p q assume p: "p \<in> set (placed gi)" and q: "q \<in> set (placed gi)"
      and s: "start_of p = start_of q"
    from same_start_same_answer[OF inv p q s] buildGrid_props(3)[OF b] p q
    have "answer (entries ! p_index p) = answer (entries ! p_index q)" by simp
    moreover from idx(2) p q have "p_index p < length entries" "p_index q < length entries"
      by auto
    ultimately have "p_index p = p_index q"
      using d by (auto simp: distinct_conv_nth)
    with idx(1) p q show "p = q"
      by (simp add: distinct_map inj_on_def)
  qed
  with dp show ?thesis by (simp add: distinct_map)
qed

lemma is_start_cells:
  assumes "is_start la dir (r, c)"
  shows "la (cell_at dir r c 0) \<noteq> None" "la (cell_at dir r c 1) \<noteq> None"
    "la (cell_at dir r c (- 1)) = None"
  using assms
  by (cases dir;
      simp add: is_start_def startsAcross_def startsDown_def hasLetter_def cell_at_def
        cell_r_def cell_c_def)+

lemma la_p_cell:
  assumes "grid_inv gi"
  shows "letterAt_info gi (cell_at (p_dir p) (rel_row gi p) (rel_col gi p) i) = letter gi (p_cell p i)"
  by (simp add: cell_at_def cell_r_def cell_c_def p_cell_def rel_row_def rel_col_def
      letterAt_info_eq[OF assms])

lemma start_rel_rel: "start_rel (minRow gi) (minCol gi) p = (rel_row gi p, rel_col gi p, p_dir p)"
  by (simp add: start_rel_def rel_row_def rel_col_def)

lemma used_placement:
  assumes e: "emit_clues entries gi = Inr s" and i: "i \<in> set (usedEntries s)"
  shows "\<exists>p \<in> set (placed gi). p_index p = i \<and>
           is_start (letterAt_info gi) (p_dir p) (rel_row gi p, rel_col gi p) \<and>
           (rel_row gi p, rel_col gi p) \<in> set (scan_order (rows_info gi) (cols_info gi))"
proof -
  from emit_clues_facts[OF e] obtain sm where
    sm: "startToEntry_info entries gi = Inr sm"
    and u: "set (usedEntries s) =
           used_at sm (letterAt_info gi) (scan_order (rows_info gi) (cols_info gi))"
    by metis
  from i u obtain rc dir eo where
    rc: "rc \<in> set (scan_order (rows_info gi) (cols_info gi))"
    and st: "is_start (letterAt_info gi) dir rc"
    and m: "sm (fst rc, snd rc, dir) = Some (i, eo)"
    by (auto simp: used_at_def)
  from startToEntry_lookup(3)[OF sm m] obtain p where
    p: "p \<in> set (placed gi)" "(fst rc, snd rc, dir) = start_rel (minRow gi) (minCol gi) p"
      "(i, eo) = entry_of entries p"
    by blast
  from p(2) have "rc = (rel_row gi p, rel_col gi p)" "dir = p_dir p"
    by (auto simp: start_rel_rel prod_eq_iff)
  with p rc st show ?thesis
    by (auto simp: entry_of_def)
qed

lemma used_subset:
  assumes b: "buildGrid entries = Inr gi" and e: "emit_clues entries gi = Inr s"
  shows "set (usedEntries s) \<subseteq> {0..<length entries}"
  using used_placement[OF e] buildGrid_indices(2)[OF b] by blast

lemma used_all_iff:
  assumes b: "buildGrid entries = Inr gi" and e: "emit_clues entries gi = Inr s"
  shows "length (usedEntries s) = length entries \<longleftrightarrow> set (usedEntries s) = {0..<length entries}"
proof -
  from emit_clues_facts[OF e] have d: "distinct (usedEntries s)" by metis
  then have c: "card (set (usedEntries s)) = length (usedEntries s)"
    by (rule distinct_card)
  show ?thesis
  proof
    assume "length (usedEntries s) = length entries"
    with c have "card (set (usedEntries s)) = card {0..<length entries}" by simp
    with used_subset[OF b e] show "set (usedEntries s) = {0..<length entries}"
      by (simp add: card_subset_eq)
  next
    assume "set (usedEntries s) = {0..<length entries}"
    with c show "length (usedEntries s) = length entries" by simp
  qed
qed

lemma one_letter_unused:
  assumes b: "buildGrid entries = Inr gi" and e: "emit_clues entries gi = Inr s"
    and i: "i < length entries" and one: "length (answer (entries ! i)) = 1"
  shows "i \<notin> set (usedEntries s)"
proof
  assume "i \<in> set (usedEntries s)"
  from used_placement[OF e this] obtain p where
    p: "p \<in> set (placed gi)" "p_index p = i"
    and st: "is_start (letterAt_info gi) (p_dir p) (rel_row gi p, rel_col gi p)"
    by blast
  note inv = buildGrid_props(1)[OF b]
  from buildGrid_props(3)[OF b] p one have len: "length (p_answer p) = 1" by simp
  then have ne: "p_answer p \<noteq> []" by auto
  from grid_invD(4)[OF inv p(1)] ne len have "letter gi (p_cell p 1) = None"
    by (simp add: word_bounded_def)
  moreover from is_start_cells(2)[OF st] have "letter gi (p_cell p 1) \<noteq> None"
    by (simp add: la_p_cell[OF inv])
  ultimately show False by simp
qed

section \<open>Clues and their placements\<close>

lemma set_scan_order: "rc \<in> set (scan_order nrows ncols) \<longleftrightarrow> in_matrix nrows ncols rc"
  by (cases rc) (auto simp: scan_order_def in_matrix_def)


lemma letter_in_matrix:
  assumes inv: "grid_inv gi" and l: "letterAt_info gi rc \<noteq> None"
  shows "in_matrix (rows_info gi) (cols_info gi) rc"
proof -
  obtain r c where rc: "rc = (r, c)" by (cases rc)
  from l have "letter gi (r + minRow gi, c + minCol gi) \<noteq> None"
    by (simp add: rc letterAt_info_eq[OF inv])
  from grid_invD(2)[OF inv this] show ?thesis
    by (simp add: in_bounds_def in_matrix_def rows_info_def cols_info_def rc)
qed

lemma upto_nth: "0 \<le> i \<Longrightarrow> i < n \<Longrightarrow> [0..n - 1] ! nat i = i"
  by (simp add: nth_upto)

lemma upto_length: "length [0..n - 1] = nat n"
  by simp

lemma solution_make_gridJson:
  assumes "in_matrix nrows ncols (r, c)"
  shows "map (map solution) (make_gridJson la nrows ncols) ! nat r ! nat c = la (r, c)"
proof -
  from assms have r: "0 \<le> r" "r < nrows" and c: "0 \<le> c" "c < ncols"
    by (simp_all add: in_matrix_def)
  then have nr: "nat r < length [0..nrows - 1]" and nc: "nat c < length [0..ncols - 1]"
    by simp_all
  from r c have "make_gridJson la nrows ncols ! nat r ! nat c = make_cell la r c"
    unfolding make_gridJson_def
    by (simp only: nth_map[OF nr] nth_map[OF nc] upto_nth)
  moreover have "solution (make_cell la r c) = la (r, c)"
    by (simp add: make_cell_def split: option.splits)
  moreover from nr nc have "map (map solution) (make_gridJson la nrows ncols) ! nat r ! nat c =
      solution (make_gridJson la nrows ncols ! nat r ! nat c)"
    by (simp add: make_gridJson_def)
  ultimately show ?thesis by simp
qed

lemma solution_same:
  assumes "map (map solution) gj = map (map solution) gj0"
    and "i < length gj0" "j < length (gj0 ! i)"
  shows "solution (gj ! i ! j) = map (map solution) gj0 ! i ! j"
proof -
  from assms(1) have l: "length gj = length gj0" by (metis length_map)
  with assms(2) have i: "i < length gj" by simp
  from assms(1) i have row: "map solution (gj ! i) = map solution (gj0 ! i)"
    by (metis nth_map assms(2))
  then have "length (gj ! i) = length (gj0 ! i)" by (metis length_map)
  with assms(3) have j: "j < length (gj ! i)" by simp
  have "map (map solution) gj0 ! i ! j = map solution (gj0 ! i) ! j"
    using assms(2) by simp
  also have "\<dots> = map solution (gj ! i) ! j" by (simp add: row)
  also have "\<dots> = solution (gj ! i ! j)" using j by simp
  finally show ?thesis by simp
qed

lemma solution_scan:
  assumes "map (map solution) gj = map (map solution) (make_gridJson la nrows ncols)"
    and "in_matrix nrows ncols (r, c)"
  shows "solution (gj ! nat r ! nat c) = la (r, c)"
proof -
  from assms(2) have r: "0 \<le> r" "r < nrows" and c: "0 \<le> c" "c < ncols"
    by (simp_all add: in_matrix_def)
  then have i: "nat r < length (make_gridJson la nrows ncols)"
    by (simp add: make_gridJson_def)
  from r c have j: "nat c < length (make_gridJson la nrows ncols ! nat r)"
    by (simp add: make_gridJson_def)
  from solution_same[OF assms(1) i j] solution_make_gridJson[OF assms(2)]
  show ?thesis by simp
qed

lemma cell_r_0: "cell_r dir r 0 = r"
  by (simp add: cell_r_def)

lemma cell_c_0: "cell_c dir c 0 = c"
  by (simp add: cell_c_def)

lemma placement_run:
  assumes inv: "grid_inv gi" and p: "p \<in> set (placed gi)"
    and st: "is_start (letterAt_info gi) (p_dir p) (rel_row gi p, rel_col gi p)"
  shows "takeRun (letterAt_info gi) (rows_info gi) (cols_info gi) (rel_row gi p) (rel_col gi p)
           (p_dir p) =
         word_cells (p_dir p) (rel_row gi p) (rel_col gi p) 0 (length (p_answer p))"
    and "p_answer p \<noteq> []"
proof -
  let ?la = "letterAt_info gi"
  from is_start_cells(1)[OF st] have "letter gi (p_cell p 0) \<noteq> None"
    by (simp add: la_p_cell[OF inv])
  then have g: "grid gi \<noteq> []" by (auto simp: letter_def)
  from grid_invD(6)[OF inv g p] show ne: "p_answer p \<noteq> []" .
  with grid_invD(4)[OF inv p] have
    last: "?la (cell_at (p_dir p) (rel_row gi p) (rel_col gi p) (0 + int (length (p_answer p)))) = None"
    by (simp add: word_bounded_def la_p_cell[OF inv])
  have each: "\<forall>j<length (p_answer p).
      in_matrix (rows_info gi) (cols_info gi)
        (cell_at (p_dir p) (rel_row gi p) (rel_col gi p) (0 + int j)) \<and>
      ?la (cell_at (p_dir p) (rel_row gi p) (rel_col gi p) (0 + int j)) \<noteq> None"
  proof (intro allI impI)
    fix j assume "j < length (p_answer p)"
    with grid_invD(3)[OF inv p] have
      "?la (cell_at (p_dir p) (rel_row gi p) (rel_col gi p) (0 + int j)) \<noteq> None"
      by (simp add: la_p_cell[OF inv] word_on_grid_def)
    with letter_in_matrix[OF inv this] show
      "in_matrix (rows_info gi) (cols_info gi)
        (cell_at (p_dir p) (rel_row gi p) (rel_col gi p) (0 + int j)) \<and>
      ?la (cell_at (p_dir p) (rel_row gi p) (rel_col gi p) (0 + int j)) \<noteq> None"
      by simp
  qed
  from takeRun_exact[OF each last] show
    "takeRun ?la (rows_info gi) (cols_info gi) (rel_row gi p) (rel_col gi p) (p_dir p) =
         word_cells (p_dir p) (rel_row gi p) (rel_col gi p) 0 (length (p_answer p))"
    by (simp add: cell_r_0 cell_c_0)
qed

lemma clue_at_placement:
  assumes b: "buildGrid entries = Inr gi"
    and sm: "startToEntry_info entries gi = Inr sm"
    and st: "is_start (letterAt_info gi) dir rc"
    and cl: "clue_at sm (letterAt_info gi) (rows_info gi) (cols_info gi) dir cl rc"
  shows "\<exists>p \<in> set (placed gi). p_dir p = dir \<and> rc = (rel_row gi p, rel_col gi p) \<and>
           clue_text cl = clue (entries ! p_index p) \<and>
           cells cl = word_cells dir (rel_row gi p) (rel_col gi p) 0 (length (p_answer p))"
proof -
  note inv = buildGrid_props(1)[OF b]
  from cl obtain idx e where
    run: "cells cl = takeRun (letterAt_info gi) (rows_info gi) (cols_info gi) (fst rc) (snd rc) dir"
    and m: "sm (fst rc, snd rc, dir) = Some (idx, Some e)" and t: "clue_text cl = clue e"
    by (auto simp: clue_at_def)
  from startToEntry_lookup(3)[OF sm m] obtain p where
    p: "p \<in> set (placed gi)" "(fst rc, snd rc, dir) = start_rel (minRow gi) (minCol gi) p"
      "(idx, Some e) = entry_of entries p"
    by blast
  from p(2) have rc: "rc = (rel_row gi p, rel_col gi p)" and dir: "dir = p_dir p"
    by (auto simp: start_rel_rel prod_eq_iff)
  from p(3) have e: "e = entries ! p_index p"
    by (auto simp: entry_of_def split: if_splits)
  from st have "is_start (letterAt_info gi) (p_dir p) (rel_row gi p, rel_col gi p)"
    by (simp add: rc dir)
  from placement_run(1)[OF inv p(1) this] run rc dir t e p(1) show ?thesis
    by auto
qed

lemma list_all2_witness:
  assumes "list_all2 P xs ys" and "x \<in> set xs"
  shows "\<exists>y \<in> set ys. P x y"
proof -
  from assms(2) obtain i where i: "i < length xs" "xs ! i = x"
    by (auto simp: in_set_conv_nth)
  from list_all2_nthD[OF assms(1) i(1)] i(2) have "P x (ys ! i)" by simp
  moreover from assms(1) i(1) have "ys ! i \<in> set ys"
    by (simp add: list_all2_lengthD)
  ultimately show ?thesis by blast
qed

lemma word_cells_explicit:
  "word_cells dir r c 0 n =
     (if dir = Across then map (\<lambda>j. (r, c + int j)) [0..<n]
      else map (\<lambda>j. (r + int j, c)) [0..<n])"
  by (simp add: word_cells_def cell_at_def cell_r_def cell_c_def)

lemma buildJson_Inr:
  assumes "buildJson entries gi = Inr pz"
  obtains s where "emit_clues entries gi = Inr s"
    and "length (usedEntries s) = length entries"
    and "puzzle_grid pz = gridJson s" and "clues_across pz = acrossClues s"
    and "clues_down pz = downClues s"
    and "rows pz = rows_info gi" and "cols pz = cols_info gi"
  using assms by (auto simp: buildJson_def split: sum.splits if_splits)

section \<open>Counting the clues of an entry\<close>










section \<open>Runs of the pipeline\<close>

lemma js_sorted_order_of: "js_sorted (items_of entries) (order_of entries)"
proof -
  let ?f = "\<lambda>item :: nat \<times> nat. - int (snd item)"
  have "sorted (map ?f (order_of entries))"
    unfolding order_of_def by (rule sorted_sort_key)
  then have s: "sorted_wrt (\<lambda>a b. int (snd b) - int (snd a) \<le> 0) (order_of entries)"
    by (simp add: sorted_map)
  have st: "filter (\<lambda>x. snd x = snd k) (order_of entries) =
            filter (\<lambda>x. snd x = snd k) (items_of entries)" for k :: "nat \<times> nat"
  proof -
    have "filter (\<lambda>x. ?f x = ?f k) (order_of entries) = filter (\<lambda>x. ?f x = ?f k) (items_of entries)"
      unfolding order_of_def by (rule sort_key_stable)
    then show ?thesis by simp
  qed
  from s st show ?thesis
    by (simp add: js_sorted_def order_of_def)
qed

lemma js_sorted_unique:
  assumes "js_sorted items order"
  shows "order = sort_key (\<lambda>item. - int (snd item)) items"
proof (rule properties_for_sort_key[symmetric])
  from assms show "mset order = mset items" by (simp add: js_sorted_def)
  from assms show "sorted (map (\<lambda>item. - int (snd item)) order)"
    by (simp add: js_sorted_def sorted_map)
  fix k assume "k \<in> set order"
  with assms have "filter (\<lambda>x. snd x = snd k) order = filter (\<lambda>x. snd x = snd k) items"
    by (simp add: js_sorted_def)
  moreover have "(\<lambda>x :: nat \<times> nat. - int (snd k) = - int (snd x)) = (\<lambda>x. snd x = snd k)"
    by auto
  ultimately show "filter (\<lambda>x. - int (snd k) = - int (snd x)) order =
      filter (\<lambda>x. - int (snd k) = - int (snd x)) items"
    by simp
qed

lemma runs_build: "runs entries (build entries)"
  unfolding runs_def
  by (rule exI[of _ "order_of entries"]) (simp add: js_sorted_order_of build_def buildGrid_def)

section \<open>The fallback placement\<close>

text \<open>
  On a grid that is not empty the fallback of \<^verbatim>\<open>buildGrid\<close> is always refused: the row
  two below \<^verbatim>\<open>maxRow\<close> holds no letter, so \<^verbatim>\<open>canPlace\<close> counts no intersection and
  \<^verbatim>\<open>placeWordAt\<close> throws.
\<close>

lemma fallback_refused:
  assumes inv: "grid_inv st" and g: "grid st \<noteq> []"
  shows "placeWordAt index ans (maxRow st + 2) (minCol st) Across st = Inl (InvalidPlacement ans)"
proof -
  have "letter st rc = None" if "rc \<in> set (word_cells Across (maxRow st + 2) (minCol st) 0 (length ans))" for rc
  proof (rule ccontr)
    assume "letter st rc \<noteq> None"
    from grid_invD(2)[OF inv this] have "fst rc \<le> maxRow st" by (simp add: in_bounds_def)
    moreover from that have "fst rc = maxRow st + 2"
      by (auto simp: set_word_cells cell_at_def cell_r_def)
    ultimately show False by simp
  qed
  then have "filter (\<lambda>rc. letter st rc \<noteq> None)
               (word_cells Across (maxRow st + 2) (minCol st) 0 (length ans)) = []"
    by (simp add: filter_empty_conv)
  with g have "fst (canPlace ans (maxRow st + 2) (minCol st) Across st) = None"
    by (simp add: canPlace_None_iff)
  with g show ?thesis by (simp add: placeWordAt_cases)
qed

section \<open>The claims\<close>

text \<open>
  C1, at the input CAT, DOG: the two answers share no letter, \<^verbatim>\<open>bestPlacement\<close> finds no
  candidate, and the fallback placement two rows below the grid is refused by
  \<^verbatim>\<open>placeWordAt\<close>, which validates it with \<^verbatim>\<open>canPlace\<close> and gets no intersection on a
  grid that is not empty: \<^verbatim>\<open>buildGrid\<close> throws "Invalid placement attempted for DOG"
  instead of placing the entry.
\<close>

theorem C1_fallback_throws:
  "fst (bestPlacement ''DOG'' cat_seed) = None \<and>
   placeWordAt 1 ''DOG'' (maxRow cat_seed + 2) (minCol cat_seed) Across cat_seed =
     Inl (InvalidPlacement ''DOG'') \<and>
   buildGrid cat_dog = Inl (InvalidPlacement ''DOG'')"
  by (simp add: grid_eval cat_dog_def cat_seed_def)

text \<open>
  C2: for the input CAT / ACE the seed CAT lies across at (0,0); for ACE the down
  placements at (0,1) and at (-1,0) are both valid with the same score 991, and
  \<^verbatim>\<open>bestPlacement\<close> keeps the first one found, down at (0,1); the build yields the 3x3
  grid C A T / . C . / . E . with number 1 at (0,0) and 2 at (0,1), the across clue
  1 "Feline pet" on (0,0),(0,1),(0,2) and the down clue 2 "Top card" on
  (0,1),(1,1),(2,1).
\<close>

theorem C2_cat_ace:
  "placeWordAt 0 ''CAT'' 0 0 Across init_state = Inr cat_seed \<and>
   map_option score (fst (canPlace ''ACE'' 0 1 Down cat_seed)) = Some 991 \<and>
   map_option score (fst (canPlace ''ACE'' (- 1) 0 Down cat_seed)) = Some 991 \<and>
   fst (bestPlacement ''ACE'' cat_seed) =
     Some \<lparr>cand_row = 0, cand_col = 1, cand_dir = Down, cand_score = 991\<rparr> \<and>
   buildGrid cat_ace = Inr cat_ace_info \<and>
   build cat_ace = Inr cat_ace_puzzle"
  by (simp add: grid_eval json_eval build_def cat_ace_def cat_seed_def cat_ace_info_def
      cat_ace_puzzle_def letter_cell_def block_cell_def)

text \<open>
  C3, as the code has it: an input that repeats an answer makes \<^verbatim>\<open>buildGrid\<close> commit two
  placements with the same start and direction (the second CAT lies on the first, every
  cell an intersection), so the placements of CAT, CAT collide.
\<close>

theorem C3_collision_counterexample:
  "buildGrid cat_cat = Inr cat_cat_info \<and> \<not> distinct (map start_of (placed cat_cat_info))"
  by (simp add: grid_eval cat_cat_def cat_cat_info_def start_of_def)

text \<open>
  C3, amended: when the answers of the entries are pairwise distinct, no two placements
  committed by \<^verbatim>\<open>buildGrid\<close> share their start and direction; and whenever two
  placements handed to \<^verbatim>\<open>buildJson\<close> share them, it throws "Duplicate start placement".
\<close>

theorem C3_start_collisions:
  "(buildGrid entries = Inr gi \<and> distinct (map answer entries) \<longrightarrow>
      distinct (map start_of (placed gi))) \<and>
   (\<not> distinct (map start_of (placed info)) \<longrightarrow>
      (\<exists>k. buildJson es info = Inl (DuplicateStart k)))"
  using buildGrid_distinct_starts[of entries gi] buildJson_duplicate[of info es] by blast

theorem C3_start_collisions_witness:
  "buildGrid cat_ace = Inr cat_ace_info \<and> distinct (map answer cat_ace) \<and>
   distinct (map start_of (placed cat_ace_info)) \<and>
   \<not> distinct (map start_of (placed cat_cat_info)) \<and>
   (\<exists>k. buildJson cat_cat cat_cat_info = Inl (DuplicateStart k))"
proof -
  have b: "buildGrid cat_ace = Inr cat_ace_info"
    by (simp add: grid_eval cat_ace_def cat_ace_info_def)
  have d: "distinct (map answer cat_ace)" by (simp add: cat_ace_def)
  have n: "\<not> distinct (map start_of (placed cat_cat_info))"
    by (simp add: cat_cat_info_def start_of_def)
  from b d n show ?thesis
    using C3_start_collisions [of cat_ace cat_ace_info cat_cat_info cat_cat] by blast
qed

text \<open>
  C4: \<^verbatim>\<open>canPlace\<close> returns \<^verbatim>\<open>null\<close> exactly when the cell before the start or after the
  end along the axis holds a letter, or some position holds a letter other than the
  answer's, or some position is empty with a lettered perpendicular neighbour, or the
  grid is not empty and no position holds the answer's letter already; otherwise it
  returns a result.
\<close>

theorem C4_canPlace_null:
  "fst (canPlace ans row col dir st) = None \<longleftrightarrow>
     end_touch ans row col dir st \<or> letter_conflict ans row col dir st \<or>
     side_touch ans row col dir st \<or> no_crossing ans row col dir st"
proof (cases "letter_conflict ans row col dir st \<or> side_touch ans row col dir st")
  case True
  then have "canPlace_loop st row col dir 0 ans (0, bounds_of st) = None"
    using not_cell_ok_iff[of ans st dir row col] by (simp add: canPlace_loop_None_iff)
  with True show ?thesis by (auto simp: canPlace_None_iff)
next
  case False
  then have ok: "\<forall>j<length ans. cell_ok st dir (cell_at dir row col (int j)) (ans ! j)"
    using not_cell_ok_iff[of ans st dir row col] by blast
  then have loop: "canPlace_loop st row col dir 0 ans (0, bounds_of st) \<noteq> None"
    by (simp add: canPlace_loop_None_iff)
  have "filter (\<lambda>rc. letter st rc \<noteq> None) (word_cells dir row col 0 (length ans)) = [] \<longleftrightarrow>
        (\<forall>i \<in> {0..<length ans}. letter st (cell_at dir row col (int i)) \<noteq> Some (ans ! i))"
    (is "?L \<longleftrightarrow> ?R")
  proof
    assume ?L
    then have "\<forall>i<length ans. letter st (cell_at dir row col (int i)) = None"
      by (auto simp: filter_empty_conv set_word_cells)
    then show ?R by simp
  next
    assume r: ?R
    have "letter st (cell_at dir row col (int i)) = None" if "i < length ans" for i
    proof (cases "letter st (cell_at dir row col (int i))")
      case None then show ?thesis .
    next
      case (Some e)
      with ok that have "e = ans ! i" by (auto simp: cell_ok_def)
      with Some r that show ?thesis by auto
    qed
    then show ?L by (auto simp: filter_empty_conv set_word_cells)
  qed
  with False loop show ?thesis
    unfolding canPlace_None_iff no_crossing_def by blast
qed

theorem C4_canPlace_null_witness:
  "end_touch ''ACE'' 0 1 Across cat_seed \<and>
   fst (canPlace ''ACE'' 0 1 Across cat_seed) = None \<and>
   no_crossing ''ACE'' 2 0 Across cat_seed \<and>
   fst (canPlace ''ACE'' 2 0 Across cat_seed) = None \<and>
   fst (canPlace ''ACE'' 0 1 Down cat_seed) \<noteq> None \<and>
   \<not> no_crossing ''ACE'' 0 1 Down cat_seed"
proof -
  have e: "end_touch ''ACE'' 0 1 Across cat_seed"
    by (simp add: end_touch_def letter_def cell_at_def cell_r_def cell_c_def cat_seed_def)
  have n: "no_crossing ''ACE'' 2 0 Across cat_seed"
    by (simp add: no_crossing_def letter_def cell_at_def cell_r_def cell_c_def cat_seed_def)
  have s: "fst (canPlace ''ACE'' 0 1 Down cat_seed) \<noteq> None"
    by (simp add: grid_eval cat_seed_def)
  from e n s show ?thesis
    using C4_canPlace_null [of "''ACE''" 0 1 Across cat_seed]
      C4_canPlace_null [of "''ACE''" 2 0 Across cat_seed]
      C4_canPlace_null [of "''ACE''" 0 1 Down cat_seed]
    by simp
qed

text \<open>
  C5: in a compiled puzzle every clue belongs to a placement that starts at the clue's
  first cell in the clue's direction; its cells are the consecutive cells from there
  along the axis (columns for across, rows for down), as many as the entry's answer has
  letters, and the solutions of the matrix at these cells spell the answer.
\<close>

theorem C5_clue_cells:
  assumes b: "buildGrid entries = Inr gi" and j: "buildJson entries gi = Inr pz"
    and cl: "(dir = Across \<and> cl \<in> set (clues_across pz)) \<or>
             (dir = Down \<and> cl \<in> set (clues_down pz))"
  shows "\<exists>p \<in> set (placed gi).
           p_dir p = dir \<and> p_index p < length entries \<and>
           clue_text cl = clue (entries ! p_index p) \<and>
           cells cl =
             (if dir = Across
              then map (\<lambda>k. (rel_row gi p, rel_col gi p + int k))
                     [0..<length (answer (entries ! p_index p))]
              else map (\<lambda>k. (rel_row gi p + int k, rel_col gi p))
                     [0..<length (answer (entries ! p_index p))]) \<and>
           length (cells cl) = length (answer (entries ! p_index p)) \<and>
           map (solution_at pz) (cells cl) = map Some (answer (entries ! p_index p))"
proof -
  note inv = buildGrid_props(1)[OF b]
  let ?la = "letterAt_info gi"
  let ?order = "scan_order (rows_info gi) (cols_info gi)"
  from j obtain s where e: "emit_clues entries gi = Inr s"
    and pg: "puzzle_grid pz = gridJson s" and ca: "clues_across pz = acrossClues s"
    and cd: "clues_down pz = downClues s"
    by (rule buildJson_Inr)
  from emit_clues_facts[OF e] obtain sm where
    sm: "startToEntry_info entries gi = Inr sm"
    and la: "list_all2 (clue_at sm ?la (rows_info gi) (cols_info gi) Across)
           (acrossClues s) (filter (is_start ?la Across) ?order)"
    and ld: "list_all2 (clue_at sm ?la (rows_info gi) (cols_info gi) Down)
           (downClues s) (filter (is_start ?la Down) ?order)"
    and sol: "map (map solution) (gridJson s) =
           map (map solution) (make_gridJson ?la (rows_info gi) (cols_info gi))"
    by metis
  have "\<exists>rc. is_start ?la dir rc \<and> clue_at sm ?la (rows_info gi) (cols_info gi) dir cl rc"
    using cl
  proof
    assume a: "dir = Across \<and> cl \<in> set (clues_across pz)"
    with list_all2_witness[OF la, of cl] show ?thesis by (auto simp: ca)
  next
    assume a: "dir = Down \<and> cl \<in> set (clues_down pz)"
    with list_all2_witness[OF ld, of cl] show ?thesis by (auto simp: cd)
  qed
  then obtain rc where st: "is_start ?la dir rc"
    and at: "clue_at sm ?la (rows_info gi) (cols_info gi) dir cl rc"
    by blast
  from clue_at_placement[OF b sm st at] obtain p where
    p: "p \<in> set (placed gi)" "p_dir p = dir" "rc = (rel_row gi p, rel_col gi p)"
      "clue_text cl = clue (entries ! p_index p)"
      "cells cl = word_cells dir (rel_row gi p) (rel_col gi p) 0 (length (p_answer p))"
    by blast
  from buildGrid_props(3)[OF b] p(1) have ans: "p_answer p = answer (entries ! p_index p)"
    by simp
  from buildGrid_indices(2)[OF b] p(1) have idx: "p_index p < length entries" by auto
  have "map (solution_at pz) (cells cl) = map Some (p_answer p)"
  proof (rule nth_equalityI)
    show "length (map (solution_at pz) (cells cl)) = length (map Some (p_answer p))"
      by (simp add: p(5))
    fix k assume "k < length (map (solution_at pz) (cells cl))"
    then have k: "k < length (p_answer p)" by (simp add: p(5))
    let ?c = "cell_at dir (rel_row gi p) (rel_col gi p) (int k)"
    from grid_invD(3)[OF inv p(1)] k have l: "?la ?c = Some (p_answer p ! k)"
      by (simp add: la_p_cell[OF inv, of p, unfolded p(2)] word_on_grid_def)
    then have "in_matrix (rows_info gi) (cols_info gi) ?c"
      by (intro letter_in_matrix[OF inv]) simp
    from solution_scan[OF sol, of "fst ?c" "snd ?c"] this l
    have "solution_at pz ?c = Some (p_answer p ! k)"
      by (simp add: solution_at_def pg)
    with k show "map (solution_at pz) (cells cl) ! k = map Some (p_answer p) ! k"
      by (simp add: p(5))
  qed
  with p idx ans show ?thesis
    by (intro bexI[of _ p]) (simp_all add: word_cells_explicit)
qed

theorem C5_clue_cells_witness:
  "buildGrid cat_ace = Inr cat_ace_info \<and> buildJson cat_ace cat_ace_info = Inr cat_ace_puzzle \<and>
   (\<exists>p \<in> set (placed cat_ace_info).
      p_dir p = Down \<and> p_index p < length cat_ace \<and>
      cells (hd (clues_down cat_ace_puzzle)) =
        map (\<lambda>k. (rel_row cat_ace_info p + int k, rel_col cat_ace_info p))
          [0..<length (answer (cat_ace ! p_index p))] \<and>
      map (solution_at cat_ace_puzzle) (cells (hd (clues_down cat_ace_puzzle))) =
        map Some (answer (cat_ace ! p_index p)))"
proof -
  have b: "buildGrid cat_ace = Inr cat_ace_info"
    by (simp add: grid_eval cat_ace_def cat_ace_info_def)
  have j: "buildJson cat_ace cat_ace_info = Inr cat_ace_puzzle"
    by (simp add: json_eval cat_ace_def cat_ace_info_def cat_ace_puzzle_def letter_cell_def
        block_cell_def)
  have c: "(Down = Across \<and> hd (clues_down cat_ace_puzzle) \<in> set (clues_across cat_ace_puzzle)) \<or>
           (Down = Down \<and> hd (clues_down cat_ace_puzzle) \<in> set (clues_down cat_ace_puzzle))"
    by (simp add: cat_ace_puzzle_def)
  from C5_clue_cells [OF b j c] b j show ?thesis by auto
qed




text \<open>
  C7: an accepted candidate has the score intersections * 1000 - area - |width - height| * 5,
  where width, height and area are those of the bounds that committing the placement
  with \<^verbatim>\<open>placeWordAt\<close> leaves (the current bounds widened by the cells of the placement),
  and intersections counts the cells of the placement that hold a letter already.
\<close>

theorem C7_score:
  assumes "fst (canPlace ans row col dir st) = Some chk"
  shows "\<exists>st'. placeWordAt index ans row col dir st = Inr st' \<and>
           bounds chk = bounds_of st' \<and>
           bounds chk = widened (bounds_of st) (word_cells dir row col 0 (length ans)) \<and>
           intersections chk = crossings ans row col dir st \<and>
           score chk =
             intersections chk * 1000
             - (maxRow st' - minRow st' + 1) * (maxCol st' - minCol st' + 1)
             - \<bar>(maxCol st' - minCol st' + 1) - (maxRow st' - minRow st' + 1)\<bar> * 5"
proof -
  define st' where "st' = (placeWordAt_loop row col dir 0 ans st)
                  \<lparr>placed := placed st @
                     [\<lparr>p_index = index, p_row = row, p_col = col, p_dir = dir,
                       p_answer = ans\<rparr>]\<rparr>"
  have p: "placeWordAt index ans row col dir st = Inr st'"
    using assms by (simp add: placeWordAt_cases st'_def)
  have b: "bounds_of st' = bounds chk"
    using canPlace_Some(2)[OF assms] bounds_of_placeWordAt_loop[of row col dir 0 ans st]
    by (simp add: st'_def bounds_of_def)
  from canPlace_Some(3)[OF assms] b have
    "score chk = intersections chk * 1000
             - (maxRow st' - minRow st' + 1) * (maxCol st' - minCol st' + 1)
             - \<bar>(maxCol st' - minCol st' + 1) - (maxRow st' - minRow st' + 1)\<bar> * 5"
    by (simp add: committed_score_def bounds_of_def[of st'] flip: b)
  with p b canPlace_Some(1,2)[OF assms] show ?thesis by auto
qed

theorem C7_score_witness:
  "fst (canPlace ''ACE'' 0 1 Down cat_seed) =
     Some \<lparr>intersections = 1, score = 991,
           bounds = \<lparr>newMinRow = 0, newMaxRow = 2, newMinCol = 0, newMaxCol = 2\<rparr>\<rparr> \<and>
   (\<exists>st'. placeWordAt 1 ''ACE'' 0 1 Down cat_seed = Inr st' \<and>
          991 = 1 * 1000 - (maxRow st' - minRow st' + 1) * (maxCol st' - minCol st' + 1)
                  - \<bar>(maxCol st' - minCol st' + 1) - (maxRow st' - minRow st' + 1)\<bar> * 5)"
proof -
  have h: "fst (canPlace ''ACE'' 0 1 Down cat_seed) =
     Some \<lparr>intersections = 1, score = 991,
           bounds = \<lparr>newMinRow = 0, newMaxRow = 2, newMinCol = 0, newMaxCol = 2\<rparr>\<rparr>"
    by (simp add: grid_eval cat_seed_def)
  from C7_score [OF h, of 1] h show ?thesis by auto
qed

text \<open>
  C8: when some entry has a one-letter answer the build throws: either before the
  validation, or, when the placement and the scan succeed, the one-letter entry is never
  used (the cell after its letter along its axis is empty, so its start is never a clue
  start) and \<^verbatim>\<open>buildJson\<close> throws the error of the unused entries, which lists it.
\<close>

theorem C8_one_letter:
  assumes i: "i < length entries" and one: "length (answer (entries ! i)) = 1"
  shows "(\<exists>err. build entries = Inl err) \<and>
         (\<forall>gi s. buildGrid entries = Inr gi \<and> emit_clues entries gi = Inr s \<longrightarrow>
            i \<notin> set (usedEntries s) \<and>
            (\<exists>missing. buildJson entries gi = Inl (UnusedEntries missing) \<and>
                       display_answer (entries ! i) \<in> set missing))"
proof
  show "\<exists>err. build entries = Inl err"
  proof (cases "build entries")
    case (Inl err)
    then show ?thesis by blast
  next
    case (Inr pz)
    from Inr obtain gi where b: "buildGrid entries = Inr gi" and j: "buildJson entries gi = Inr pz"
      by (auto simp: build_def split: if_splits sum.splits)
    from j obtain s where e: "emit_clues entries gi = Inr s"
      and l: "length (usedEntries s) = length entries"
      by (auto simp: buildJson_def split: sum.splits if_splits)
    from l used_all_iff[OF b e] i have "i \<in> set (usedEntries s)" by simp
    with one_letter_unused[OF b e i one] show ?thesis by simp
  qed
  show "\<forall>gi s. buildGrid entries = Inr gi \<and> emit_clues entries gi = Inr s \<longrightarrow>
            i \<notin> set (usedEntries s) \<and>
            (\<exists>missing. buildJson entries gi = Inl (UnusedEntries missing) \<and>
                       display_answer (entries ! i) \<in> set missing)"
  proof (intro allI impI, elim conjE)
    fix gi s
    assume b: "buildGrid entries = Inr gi" and e: "emit_clues entries gi = Inr s"
    note u = one_letter_unused[OF b e i one]
    with used_all_iff[OF b e] i have l: "length (usedEntries s) \<noteq> length entries" by auto
    with e have "buildJson entries gi = Inl (UnusedEntries (missing_answers entries (usedEntries s)))"
      by (simp add: buildJson_def)
    moreover from u i have "display_answer (entries ! i) \<in> set (missing_answers entries (usedEntries s))"
      by (auto simp: missing_answers_def)
    ultimately show "i \<notin> set (usedEntries s) \<and>
            (\<exists>missing. buildJson entries gi = Inl (UnusedEntries missing) \<and>
                       display_answer (entries ! i) \<in> set missing)"
      using u by blast
  qed
qed

theorem C8_one_letter_witness:
  "0 < length one_a \<and> length (answer (one_a ! 0)) = 1 \<and>
   build one_a = Inl (UnusedEntries [''a'']) \<and> (\<exists>err. build one_a = Inl err)"
proof -
  have i: "0 < length one_a" by (simp add: one_a_def)
  have one: "length (answer (one_a ! 0)) = 1" by (simp add: one_a_def)
  have b: "build one_a = Inl (UnusedEntries [''a''])"
    by (simp add: build_def grid_eval json_eval one_a_def)
  from C8_one_letter [OF i one] i one b show ?thesis by blast
qed

text \<open>
  C9: a run sorts the items with any sort that meets the contract of
  \<^verbatim>\<open>Array.prototype.sort\<close> (a permutation of the items, ordered by the comparator, items
  that compare equal in their input order), then places and compiles. Two runs on the
  same entries return the same result, an error or a puzzle with the same dimensions,
  matrix, numbers and clue lists: the result of \<^verbatim>\<open>build\<close>.
\<close>

theorem C9_deterministic:
  assumes "runs entries out1" and "runs entries out2"
  shows "out1 = out2 \<and> out1 = build entries"
proof -
  have "out = build entries" if "runs entries out" for out
  proof -
    from that obtain order where o: "js_sorted (items_of entries) order"
      and out: "out = (if length entries = 0 then Inl NoEntries
               else (case place_in_order entries order of
                       Inl e \<Rightarrow> Inl e
                     | Inr gridInfo \<Rightarrow> buildJson entries gridInfo))"
      unfolding runs_def by blast
    from js_sorted_unique[OF o] have "order = order_of entries" by (simp add: order_of_def)
    with out show ?thesis by (simp add: build_def buildGrid_def)
  qed
  from this[OF assms(1)] this[OF assms(2)] show ?thesis by simp
qed

theorem C9_deterministic_witness:
  "runs cat_ace (Inr cat_ace_puzzle) \<and> runs cat_ace (build cat_ace) \<and>
   build cat_ace = Inr cat_ace_puzzle"
proof -
  have i: "items_of cat_ace = [(0, 3), (Suc 0, 3)]"
    by (simp add: items_of_def cat_ace_def)
  have o: "js_sorted (items_of cat_ace) [(0, 3), (Suc 0, 3)]"
    unfolding i by (simp add: js_sorted_def)
  have p: "place_in_order cat_ace [(0, 3), (Suc 0, 3)] = Inr cat_ace_info"
    by (simp add: grid_eval cat_ace_def cat_ace_info_def)
  have j: "buildJson cat_ace cat_ace_info = Inr cat_ace_puzzle"
    by (simp add: json_eval cat_ace_def cat_ace_info_def cat_ace_puzzle_def letter_cell_def
        block_cell_def)
  have ne: "cat_ace \<noteq> []" by (simp add: cat_ace_def)
  have r1: "runs cat_ace (Inr cat_ace_puzzle)"
    unfolding runs_def
    by (rule exI[of _ "[(0, 3), (Suc 0, 3)]"]) (simp add: o p j ne)
  have r2: "runs cat_ace (build cat_ace)" by (rule runs_build)
  from C9_deterministic [OF r1 r2] r1 r2 show ?thesis by simp
qed

text \<open>
  C10: \<^verbatim>\<open>canPlace\<close> leaves the grid and the four bounds (and the list of placements)
  as they were.
\<close>

theorem C10_canPlace_frame:
  "grid (snd (canPlace ans row col dir st)) = grid st \<and>
   minRow (snd (canPlace ans row col dir st)) = minRow st \<and>
   maxRow (snd (canPlace ans row col dir st)) = maxRow st \<and>
   minCol (snd (canPlace ans row col dir st)) = minCol st \<and>
   maxCol (snd (canPlace ans row col dir st)) = maxCol st \<and>
   placed (snd (canPlace ans row col dir st)) = placed st"
  by (simp add: canPlace_def Let_def split: option.splits prod.splits)

end
